theory Spec2Isabelle
  imports Complex_Main "HOL-Library.AList" "HOL-Library.Multiset"
begin

section \<open>Data model of \<open>hdbscan/plots.py\<close>\<close>

text \<open>
  The Python exceptions that the modelled functions can raise. \<open>RecursionError\<close> is what
  the interpreter raises when the recursion of \<open>_recurse_leaf_dfs\<close> exceeds its depth limit.
\<close>

datatype error = ValueError | KeyError | RecursionError | ImportError | IndexError

text \<open>
  One row of the condensed tree (a numpy structured array with the fields \<open>parent\<close>,
  \<open>child\<close>, \<open>lambda_val\<close>, \<open>child_size\<close>). Floating point numbers are idealised as reals.
\<close>

record edge =
  parent :: int
  child :: int
  lambda_val :: real
  child_size :: int

type_synonym condensed_tree = "edge list"

text \<open>\<open>.min()\<close> and \<open>.max()\<close> of a numpy array raise \<open>ValueError\<close> on an empty array.\<close>

fun array_min :: "('a::linorder) list \<Rightarrow> error + 'a" where
  "array_min [] = Inl ValueError"
| "array_min (x # xs) = Inr (fold min xs x)"

fun array_max :: "('a::linorder) list \<Rightarrow> error + 'a" where
  "array_max [] = Inl ValueError"
| "array_max (x # xs) = Inr (fold max xs x)"

text \<open>A loop whose body may raise: the first error ends it.\<close>

fun fold_err :: "('a \<Rightarrow> 's \<Rightarrow> error + 's) \<Rightarrow> 'a list \<Rightarrow> 's \<Rightarrow> error + 's" where
  "fold_err f [] s = Inr s"
| "fold_err f (x # xs) s = (case f x s of Inl e \<Rightarrow> Inl e | Inr s' \<Rightarrow> fold_err f xs s')"

text \<open>A list comprehension whose elements may raise: the first error ends it.\<close>

fun collect :: "(error + 'a) list \<Rightarrow> error + 'a list" where
  "collect [] = Inr []"
| "collect (Inl e # rs) = Inl e"
| "collect (Inr x # rs) = (case collect rs of Inl e \<Rightarrow> Inl e | Inr xs \<Rightarrow> Inr (x # xs))"

section \<open>Traversal utilities\<close>

text \<open>
  \<open>tree['child'][np.in1d(tree['parent'], to_process)].tolist()\<close>: the children of the rows
  whose parent is in the frontier, in row order.
\<close>

definition children_of :: "condensed_tree \<Rightarrow> int list \<Rightarrow> int list" where
  "children_of tree to_process = map child (filter (\<lambda>e. parent e \<in> set to_process) tree)"

text \<open>
  The \<open>while to_process:\<close> loop of \<open>_bfs_from_cluster_tree\<close>, on the state
  \<open>(result, to_process)\<close>. The loop runs forever on a tree with a reachable cycle: that is
  the value \<open>None\<close>.
\<close>

partial_function (option) bfs_loop :: "condensed_tree \<Rightarrow> int list \<Rightarrow> int list \<Rightarrow> int list option" where
  "bfs_loop tree result to_process =
     (if to_process = [] then Some result
      else bfs_loop tree (result @ to_process) (children_of tree to_process))"

declare bfs_loop.simps [code]

definition bfs_from_cluster_tree :: "condensed_tree \<Rightarrow> int \<Rightarrow> int list option" where
  "bfs_from_cluster_tree tree bfs_root = bfs_loop tree [] [bfs_root]"

text \<open>
  \<open>_recurse_leaf_dfs\<close>. The first argument is the recursion depth the interpreter still
  allows; at depth zero the call raises \<open>RecursionError\<close>.
  \<open>sum(lists, [])\<close> concatenates the lists.
\<close>

fun recurse_leaf_dfs :: "nat \<Rightarrow> condensed_tree \<Rightarrow> int \<Rightarrow> error + int list" where
  "recurse_leaf_dfs 0 cluster_tree current_node = Inl RecursionError"
| "recurse_leaf_dfs (Suc limit) cluster_tree current_node =
     (let children = map child (filter (\<lambda>e. parent e = current_node) cluster_tree) in
      if length children = 0 then Inr [current_node]
      else (case collect (map (recurse_leaf_dfs limit cluster_tree) children) of
              Inl e \<Rightarrow> Inl e
            | Inr ls \<Rightarrow> Inr (concat ls)))"

definition get_leaves :: "nat \<Rightarrow> condensed_tree \<Rightarrow> error + int list" where
  "get_leaves limit condensed_tree =
     (let cluster_tree = filter (\<lambda>e. child_size e > 1) condensed_tree in
      case array_min (map parent cluster_tree) of
        Inl e \<Rightarrow> Inl e
      | Inr root_node \<Rightarrow> recurse_leaf_dfs limit cluster_tree root_node)"

text \<open>
  One row of the single linkage array (scipy's format): the two merged nodes, the
  distance of the merge and the size of the new cluster. The node of row \<open>i\<close> is
  \<open>num_points + i\<close>. The children are stored as floats and read with
  \<open>astype(np.int64)\<close>; the model keeps them as integers.
\<close>

record linkage_row =
  left_child :: int
  right_child :: int
  distance :: real
  merged_size :: int

type_synonym linkage = "linkage_row list"

text \<open>
  The loop of \<open>_bfs_from_linkage_tree\<close>. \<open>hierarchy[to_process, :2]\<close> raises
  \<open>IndexError\<close> when a row index is not below \<open>dim\<close>; the indices are never negative,
  since only nodes \<open>x >= num_points\<close> are kept. When no node of the frontier is a merge
  node, \<open>to_process\<close> is empty and the loop ends at its next test.
\<close>

partial_function (option) linkage_bfs_loop ::
    "linkage \<Rightarrow> int list \<Rightarrow> int list \<Rightarrow> (error + int list) option" where
  "linkage_bfs_loop hierarchy result to_process =
     (if to_process = [] then Some (Inr result)
      else
        (let dim = int (length hierarchy);
             max_node = 2 * dim;
             num_points = max_node - dim + 1;
             rows = map (\<lambda>x. x - num_points) (filter (\<lambda>x. x \<ge> num_points) to_process)
         in if rows = [] then linkage_bfs_loop hierarchy (result @ to_process) []
            else if list_ex (\<lambda>i. i \<ge> dim) rows then Some (Inl IndexError)
            else linkage_bfs_loop hierarchy (result @ to_process)
                   (concat (map (\<lambda>i. [left_child (hierarchy ! nat i),
                                         right_child (hierarchy ! nat i)]) rows))))"

declare linkage_bfs_loop.simps [code]

definition bfs_from_linkage_tree :: "linkage \<Rightarrow> int \<Rightarrow> (error + int list) option" where
  "bfs_from_linkage_tree hierarchy bfs_root = linkage_bfs_loop hierarchy [] [bfs_root]"

section \<open>Condensed-tree layout: \<open>CondensedTree.get_plot_data\<close>\<close>

text \<open>
  The dictionaries \<open>cluster_x_coords\<close> and \<open>cluster_y_coords\<close> are maps; reading a missing key
  raises \<open>KeyError\<close>. \<open>dict(zip(keys, values))\<close> keeps the last value of a repeated key.
\<close>

type_synonym coords = "(int \<rightharpoonup> real) \<times> (int \<rightharpoonup> real)"

definition dict_zip :: "int list \<Rightarrow> real list \<Rightarrow> (int \<rightharpoonup> real)" where
  "dict_zip ks vs = map_of (rev (zip ks vs))"

definition lookup :: "(int \<rightharpoonup> 'v) \<Rightarrow> int \<Rightarrow> error + 'v" where
  "lookup d k = (case d k of None \<Rightarrow> Inl KeyError | Some v \<Rightarrow> Inr v)"

text \<open>\<open>range(last_leaf, root - 1, -1)\<close>\<close>

definition cluster_range :: "int \<Rightarrow> int \<Rightarrow> int list" where
  "cluster_range last_leaf root_node = rev [root_node..last_leaf]"

text \<open>
  The body of the first loop (lines 118 to 127). \<open>left_child, right_child = split['child']\<close>
  raises \<open>ValueError\<close> when \<open>split\<close> has more than two rows.
\<close>

fun place_cluster :: "condensed_tree \<Rightarrow> int \<Rightarrow> coords \<Rightarrow> error + coords" where
  "place_cluster raw_tree cluster (cluster_x_coords, cluster_y_coords) =
     (let split = filter (\<lambda>e. parent e = cluster \<and> child_size e > 1) raw_tree in
      if length split > 1 then
        (case split of
           [l, r] \<Rightarrow>
             (case lookup cluster_x_coords (child l) of
                Inl e \<Rightarrow> Inl e
              | Inr xl \<Rightarrow>
                 (case lookup cluster_x_coords (child r) of
                    Inl e \<Rightarrow> Inl e
                  | Inr xr \<Rightarrow>
                      Inr (cluster_x_coords(cluster \<mapsto> (xl + xr) / 2),
                           cluster_y_coords(child l \<mapsto> lambda_val l, child r \<mapsto> lambda_val r))))
         | _ \<Rightarrow> Inl ValueError)
      else Inr (cluster_x_coords, cluster_y_coords))"

text \<open>
  A bar is \<open>(center, top, bottom, width)\<close>: the four parallel lists \<open>bar_centers\<close>,
  \<open>bar_tops\<close>, \<open>bar_bottoms\<close>, \<open>bar_widths\<close> are always appended to together, so the model
  keeps one list of quadruples and projects it at the end.

  \<open>np.log\<close> is \<open>ln\<close> and \<open>np.exp\<close> is \<open>exp\<close> on the reals. numpy gives \<open>-inf\<close> for
  \<open>np.log(0)\<close> and \<open>nan\<close> for a negative argument (a warning, no exception); the model
  agrees with numpy on positive arguments only.
\<close>

type_synonym bar = "real \<times> real \<times> real \<times> real"

text \<open>The body of the loop over the rows of one cluster (lines 161 to 171).\<close>

fun bar_step :: "bool \<Rightarrow> real \<Rightarrow> edge \<Rightarrow> real \<times> real \<times> bar list \<Rightarrow> real \<times> real \<times> bar list" where
  "bar_step log_size center row (current_size, current_lambda, bars) =
     (let bars' = (if lambda_val row \<noteq> current_lambda
                   then bars @ [(center, lambda_val row - current_lambda, current_lambda, current_size)]
                   else bars);
          current_size' = (if log_size then ln (exp current_size - real_of_int (child_size row))
                           else current_size - real_of_int (child_size row))
      in (current_size', lambda_val row, bars'))"

text \<open>
  \<open>for i in np.argsort(c_children['lambda_val'])\<close>: the rows in ascending \<open>lambda_val\<close>.
  The order numpy gives to rows of equal \<open>lambda_val\<close> is not fixed; the model keeps them in
  row order.
\<close>

definition cluster_bars :: "bool \<Rightarrow> real \<Rightarrow> real \<Rightarrow> real \<Rightarrow> edge list \<Rightarrow> bar list \<Rightarrow> real \<times> real \<times> bar list" where
  "cluster_bars log_size center current_size current_lambda c_children bars =
     fold (bar_step log_size center) (sort_key lambda_val c_children) (current_size, current_lambda, bars)"

type_synonym bounds = "real \<times> real \<times> real \<times> real"

text \<open>The body of the second loop (lines 146 to 171), for the cluster \<open>c\<close>.\<close>

fun cluster_step :: "bool \<Rightarrow> condensed_tree \<Rightarrow> coords \<Rightarrow> real \<Rightarrow> int \<Rightarrow>
    (int \<times> bounds) list \<times> bar list \<Rightarrow> error + (int \<times> bounds) list \<times> bar list" where
  "cluster_step log_size raw_tree (cluster_x_coords, cluster_y_coords) scaling c (cluster_bounds, bars) =
     (let c_children = filter (\<lambda>e. parent e = c) raw_tree;
          size_sum = real_of_int (sum_list (map child_size c_children)) in
      case lookup cluster_y_coords c of
        Inl e \<Rightarrow> Inl e
      | Inr current_lambda \<Rightarrow>
         (let current_size = (if log_size then ln size_sum else size_sum) in
          case lookup cluster_x_coords c of
            Inl e \<Rightarrow> Inl e
          | Inr x \<Rightarrow>
             (case array_max (map lambda_val c_children) of
                Inl e \<Rightarrow> Inl e
              | Inr top_lambda \<Rightarrow>
                  Inr (cluster_bounds @
                         [(c, (x * scaling - current_size / 2, x * scaling + current_size / 2,
                               current_lambda, top_lambda))],
                       snd (snd (cluster_bars log_size (x * scaling) current_size current_lambda
                                   c_children bars))))))"

text \<open>The body of the third loop (lines 177 to 191), for one row of the cluster tree.\<close>

fun line_step :: "bool \<Rightarrow> coords \<Rightarrow> real \<Rightarrow> edge \<Rightarrow>
    (real \<times> real) list \<times> (real \<times> real) list \<Rightarrow> error + (real \<times> real) list \<times> (real \<times> real) list" where
  "line_step log_size (cluster_x_coords, cluster_y_coords) scaling row (line_xs, line_ys) =
     (let size0 = real_of_int (child_size row);
          child_size' = (if log_size then ln size0 else size0) in
      case lookup cluster_x_coords (child row) of
        Inl e \<Rightarrow> Inl e
      | Inr xc \<Rightarrow>
         (case lookup cluster_x_coords (parent row) of
            Inl e \<Rightarrow> Inl e
          | Inr xp \<Rightarrow>
             (case lookup cluster_y_coords (child row) of
                Inl e \<Rightarrow> Inl e
              | Inr yc \<Rightarrow>
                  Inr (line_xs @ [(xp * scaling, xc * scaling + sgn (xc - xp) * (child_size' / 2))],
                       line_ys @ [(yc, yc)]))))"

record plot_data =
  bar_centers :: "real list"
  bar_tops :: "real list"
  bar_bottoms :: "real list"
  bar_widths :: "real list"
  line_xs :: "(real \<times> real) list"
  line_ys :: "(real \<times> real) list"
  cluster_bounds :: "(int \<times> bounds) list"

text \<open>
  The state after the first loop: the leaves in the order of \<open>_get_leaves\<close> get
  \<open>x = leaf_separation * index\<close>, the root gets \<open>y = 0\<close>, then the clusters are placed from
  \<open>last_leaf\<close> down to the root.
\<close>

definition layout_coords :: "nat \<Rightarrow> real \<Rightarrow> condensed_tree \<Rightarrow> error + coords" where
  "layout_coords limit leaf_separation raw_tree =
     (case get_leaves limit raw_tree of
        Inl e \<Rightarrow> Inl e
      | Inr leaves \<Rightarrow>
         (case array_max (map parent raw_tree) of
            Inl e \<Rightarrow> Inl e
          | Inr last_leaf \<Rightarrow>
             (case array_min (map parent raw_tree) of
                Inl e \<Rightarrow> Inl e
              | Inr root_node \<Rightarrow>
                  fold_err (place_cluster raw_tree) (cluster_range last_leaf root_node)
                    (dict_zip leaves (map (\<lambda>x. leaf_separation * real x) [0..<length leaves]),
                     [root_node \<mapsto> 0]))))"

definition get_plot_data :: "nat \<Rightarrow> real \<Rightarrow> bool \<Rightarrow> condensed_tree \<Rightarrow> error + plot_data" where
  "get_plot_data limit leaf_separation log_size raw_tree =
     (case layout_coords limit leaf_separation raw_tree of
        Inl e \<Rightarrow> Inl e
      | Inr xy \<Rightarrow>
         (case array_max (map parent raw_tree) of
            Inl e \<Rightarrow> Inl e
          | Inr last_leaf \<Rightarrow>
             (case array_min (map parent raw_tree) of
                Inl e \<Rightarrow> Inl e
              | Inr root_node \<Rightarrow>
                 (let size_sum = real_of_int (sum_list (map child_size
                                   (filter (\<lambda>e. parent e = root_node) raw_tree)));
                      scaling = (if log_size then ln size_sum else size_sum) in
                  case fold_err (cluster_step log_size raw_tree xy scaling)
                         (cluster_range last_leaf root_node) ([], []) of
                    Inl e \<Rightarrow> Inl e
                  | Inr (bnds, bars) \<Rightarrow>
                     (case fold_err (line_step log_size xy scaling)
                             (filter (\<lambda>e. child_size e > 1) raw_tree) ([], []) of
                        Inl e \<Rightarrow> Inl e
                      | Inr (lxs, lys) \<Rightarrow>
                          Inr \<lparr>bar_centers = map fst bars,
                               bar_tops = map (\<lambda>b. fst (snd b)) bars,
                               bar_bottoms = map (\<lambda>b. fst (snd (snd b))) bars,
                               bar_widths = map (\<lambda>b. snd (snd (snd b))) bars,
                               line_xs = lxs, line_ys = lys, cluster_bounds = bnds\<rparr>)))))"

section \<open>Cluster selection: \<open>CondensedTree._select_clusters\<close>\<close>

text \<open>
  The dictionaries \<open>stability\<close> and \<open>is_cluster\<close> are association lists in insertion order
  with one pair for each key: \<open>AList.update\<close> replaces the value of a key in place and appends
  a new key, as an assignment \<open>d[k] = v\<close> does.

  \<open>compute_stability\<close> is imported from \<open>_hdbscan_tree\<close>, which is not part of the sources;
  its result is the parameter \<open>stability\<close>.
\<close>

type_synonym 'v dict = "(int \<times> 'v) list"

text \<open>The body of the loop over \<open>node_list\<close> (lines 210 to 220).\<close>

fun select_node :: "condensed_tree \<Rightarrow> int \<Rightarrow> real dict \<times> bool dict \<Rightarrow>
    (error + real dict \<times> bool dict) option" where
  "select_node cluster_tree node (stability, is_cluster) =
     (case collect (map (lookup (map_of stability))
                      (map child (filter (\<lambda>e. parent e = node) cluster_tree))) of
        Inl e \<Rightarrow> Some (Inl e)
      | Inr child_stabilities \<Rightarrow>
         (let subtree_stability = sum_list child_stabilities in
          case lookup (map_of stability) node of
            Inl e \<Rightarrow> Some (Inl e)
          | Inr node_stability \<Rightarrow>
              if subtree_stability > node_stability then
                Some (Inr (AList.update node subtree_stability stability,
                           AList.update node False is_cluster))
              else
                (case bfs_from_cluster_tree cluster_tree node of
                   None \<Rightarrow> None
                 | Some sub_nodes \<Rightarrow>
                     Some (Inr (stability,
                                fold (\<lambda>sub_node d. if sub_node \<noteq> node
                                                    then AList.update sub_node False d else d)
                                  sub_nodes is_cluster)))))"

fun select_loop :: "condensed_tree \<Rightarrow> int list \<Rightarrow> real dict \<times> bool dict \<Rightarrow>
    (error + real dict \<times> bool dict) option" where
  "select_loop cluster_tree [] st = Some (Inr st)"
| "select_loop cluster_tree (node # nodes) st =
     (case select_node cluster_tree node st of
        None \<Rightarrow> None
      | Some (Inl e) \<Rightarrow> Some (Inl e)
      | Some (Inr st') \<Rightarrow> select_loop cluster_tree nodes st')"

text \<open>\<open>sorted(stability.keys(), reverse=True)[:-1]\<close>\<close>

definition node_list_of :: "real dict \<Rightarrow> int list" where
  "node_list_of stability = butlast (rev (sort (map fst stability)))"

definition select_clusters :: "condensed_tree \<Rightarrow> real dict \<Rightarrow> (error + int list) option" where
  "select_clusters raw_tree stability =
     (let node_list = node_list_of stability;
          cluster_tree = filter (\<lambda>e. child_size e > 1) raw_tree;
          is_cluster = map (\<lambda>cluster. (cluster, True)) node_list
      in case select_loop cluster_tree node_list (stability, is_cluster) of
           None \<Rightarrow> None
         | Some (Inl e) \<Rightarrow> Some (Inl e)
         | Some (Inr (stability', is_cluster')) \<Rightarrow>
             Some (Inr (map fst (filter snd is_cluster'))))"

section \<open>The plot methods\<close>


text \<open>
  \<open>MinimumSpanningTree.plot\<close> (lines 651 to 674). The data has the shape
  \<open>(n_points, n_dims)\<close>. The projection to two dimensions is PCA followed by t-SNE above 32
  dimensions, t-SNE alone above 2, and a copy of the data otherwise. The drawing after the
  projection is the parameter \<open>draw\<close>.
\<close>

datatype projection = PCA_then_TSNE | TSNE_only | Data_copy

record 'axis mst_plot_result =
  warnings :: "string list"
  projected :: "projection option"
  returned :: "'axis option"

definition MinimumSpanningTree_plot ::
    "bool \<Rightarrow> (projection \<Rightarrow> error + 'axis) \<Rightarrow> nat \<times> nat \<Rightarrow> error + 'axis mst_plot_result" where
  "MinimumSpanningTree_plot matplotlib_importable draw data_shape =
     (if \<not> matplotlib_importable then Inl ImportError
      else if fst data_shape > 32767 then
        Inr \<lparr>warnings = [''Too many data points for safe rendering of an minimal spanning tree!''],
             projected = None, returned = None\<rparr>
      else
        (let projection = (if snd data_shape > 2
                           then (if snd data_shape > 32 then PCA_then_TSNE else TSNE_only)
                           else Data_copy)
         in case draw projection of
              Inl e \<Rightarrow> Inl e
            | Inr axis \<Rightarrow> Inr \<lparr>warnings = [], projected = Some projection, returned = Some axis\<rparr>))"

section \<open>Notions used to state the properties\<close>

text \<open>The parent-child relation of a tree in condensed-tree encoding.\<close>

definition tree_edges :: "condensed_tree \<Rightarrow> (int \<times> int) set" where
  "tree_edges tree = set (map (\<lambda>e. (parent e, child e)) tree)"

text \<open>
  The parent-child relation of a single linkage array: row \<open>i\<close> makes the node
  \<open>num_points + i\<close> the parent of its two children, with \<open>num_points = dim + 1\<close>.
\<close>

definition linkage_edges :: "linkage \<Rightarrow> (int \<times> int) set" where
  "linkage_edges h =
     (\<Union>i \<in> {..<length h}. {(int (length h) + 1 + int i, left_child (h ! i)),
                             (int (length h) + 1 + int i, right_child (h ! i))})"

text \<open>
  A well-formed single linkage array: the children of row \<open>i\<close> are points or nodes of
  earlier rows, and no node is merged twice.
\<close>

definition valid_linkage :: "linkage \<Rightarrow> bool" where
  "valid_linkage h \<longleftrightarrow>
     (\<forall>i < length h. 0 \<le> left_child (h ! i) \<and> left_child (h ! i) < int (length h) + 1 + int i \<and>
                     0 \<le> right_child (h ! i) \<and> right_child (h ! i) < int (length h) + 1 + int i) \<and>
     distinct (concat (map (\<lambda>row. [left_child row, right_child row]) h))"

text \<open>
  The nodes a breadth-first search collects in its first \<open>k\<close> rounds, when \<open>nxt\<close> maps a
  frontier to the next one; and the next frontier of the search of a linkage array when
  no row index is out of range.
\<close>

fun levels :: "('a list \<Rightarrow> 'a list) \<Rightarrow> nat \<Rightarrow> 'a list \<Rightarrow> 'a list" where
  "levels nxt 0 fr = []"
| "levels nxt (Suc k) fr = fr @ levels nxt k (nxt fr)"

definition linkage_children :: "linkage \<Rightarrow> int list \<Rightarrow> int list" where
  "linkage_children h fr =
     concat (map (\<lambda>i. [left_child (h ! nat i), right_child (h ! nat i)])
       (filter (\<lambda>i. i < int (length h))
          (map (\<lambda>x. x - (int (length h) + 1)) (filter (\<lambda>x. x \<ge> int (length h) + 1) fr))))"

text \<open>
  The selection rule in the words of the specification (section 4.3). The nodes to process
  are the node ids of the cluster tree without the root, the smallest parent id, in
  descending order. One step for the node \<open>n\<close> compares the sum of the stabilities of the
  direct children of \<open>n\<close> with the stability of \<open>n\<close>: when the sum is larger, \<open>n\<close> is not
  selected and its stability becomes the sum; otherwise \<open>n\<close> remains as it is and every strict
  descendant of \<open>n\<close> is not selected. All the nodes to process are selected at the start, and
  the result is the set of the nodes still selected after all steps.
\<close>

definition spec_nodes :: "condensed_tree \<Rightarrow> int list" where
  "spec_nodes cluster_tree =
     rev (sort (remdups (filter (\<lambda>n. array_min (map parent cluster_tree) \<noteq> Inr n)
                           (map parent cluster_tree @ map child cluster_tree))))"

fun spec_select_step :: "condensed_tree \<Rightarrow> int \<Rightarrow> (int \<Rightarrow> real) \<times> int set \<Rightarrow> (int \<Rightarrow> real) \<times> int set" where
  "spec_select_step cluster_tree n (stability, selected) =
     (let child_sum = sum_list (map (\<lambda>e. stability (child e))
                                  (filter (\<lambda>e. parent e = n) cluster_tree))
      in if child_sum > stability n
         then (stability(n := child_sum), selected - {n})
         else (stability, selected - (tree_edges cluster_tree)\<^sup>+ `` {n}))"

definition spec_select_clusters :: "condensed_tree \<Rightarrow> int list \<Rightarrow> (int \<Rightarrow> real) \<Rightarrow> int set" where
  "spec_select_clusters cluster_tree nodes stability =
     snd (fold (spec_select_step cluster_tree) nodes (stability, set nodes))"

section \<open>Properties of the helper functions\<close>

lemma array_min_le: "array_min xs = Inr m \<Longrightarrow> x \<in> set xs \<Longrightarrow> m \<le> x"
proof (cases xs)
  case Nil
  then show "array_min xs = Inr m \<Longrightarrow> x \<in> set xs \<Longrightarrow> m \<le> x" by simp
next
  case (Cons y ys)
  assume "array_min xs = Inr m" "x \<in> set xs"
  with Cons have "m = Min (set (y # ys))" "x \<in> set (y # ys)"
    using Min.set_eq_fold[of y ys] by simp_all
  then show "m \<le> x" by (simp only: Min_le List.finite_set)
qed

lemma array_max_ge: "array_max xs = Inr m \<Longrightarrow> x \<in> set xs \<Longrightarrow> x \<le> m"
proof (cases xs)
  case Nil
  then show "array_max xs = Inr m \<Longrightarrow> x \<in> set xs \<Longrightarrow> x \<le> m" by simp
next
  case (Cons y ys)
  assume "array_max xs = Inr m" "x \<in> set xs"
  with Cons have "m = Max (set (y # ys))" "x \<in> set (y # ys)"
    using Max.set_eq_fold[of y ys] by simp_all
  then show "x \<le> m" by (simp only: Max_ge List.finite_set)
qed

lemma array_min_in: "array_min xs = Inr m \<Longrightarrow> m \<in> set xs"
proof (cases xs)
  case Nil
  then show "array_min xs = Inr m \<Longrightarrow> m \<in> set xs" by simp
next
  case (Cons y ys)
  assume "array_min xs = Inr m"
  with Cons have "m = Min (set (y # ys))"
    using Min.set_eq_fold[of y ys] by simp
  then show "m \<in> set xs" using Min_in[of "set (y # ys)"] Cons by simp
qed

text \<open>A loop fails when its body fails, in every state, at one of the elements.\<close>

lemma fold_err_fails:
  "x \<in> set xs \<Longrightarrow> (\<And>s. \<exists>e. f x s = Inl e) \<Longrightarrow> \<exists>e. fold_err f xs s = Inl e"
proof (induction xs arbitrary: s)
  case Nil
  then show ?case by simp
next
  case (Cons y ys)
  show ?case
  proof (cases "f y s")
    case (Inl e)
    then show ?thesis by simp
  next
    case (Inr s')
    show ?thesis
    proof (cases "x = y")
      case True
      with Cons.prems(2)[of s] Inr show ?thesis by simp
    next
      case False
      with Cons.prems have "x \<in> set ys" by simp
      from Cons.IH[OF this Cons.prems(2)] Inr show ?thesis by simp
    qed
  qed
qed

lemma in_cluster_range: "c \<in> set (cluster_range hi lo) \<longleftrightarrow> lo \<le> c \<and> c \<le> hi"
  by (auto simp: cluster_range_def)

text \<open>Unfolding \<open>_recurse_leaf_dfs\<close> at a recursion limit written as a numeral.\<close>

lemma recurse_leaf_dfs_numeral:
  "recurse_leaf_dfs (numeral k) cluster_tree current_node =
     (let children = map child (filter (\<lambda>e. parent e = current_node) cluster_tree) in
      if length children = 0 then Inr [current_node]
      else (case collect (map (recurse_leaf_dfs (pred_numeral k) cluster_tree) children) of
              Inl e \<Rightarrow> Inl e
            | Inr ls \<Rightarrow> Inr (concat ls)))"
  by (simp add: numeral_eq_Suc)

lemma place_cluster_three:
  assumes "3 \<le> length (filter (\<lambda>e. parent e = c \<and> child_size e > 1) tree)"
  shows "place_cluster tree c st = Inl ValueError"
proof -
  obtain xs ys where st: "st = (xs, ys)" by (cases st)
  have three: "3 \<le> length zs \<Longrightarrow> \<exists>a b d rest. zs = a # b # d # rest" for zs :: "edge list"
    by (cases zs; cases "tl zs"; cases "tl (tl zs)") auto
  from three[OF assms] obtain a b d rest where
    "filter (\<lambda>e. parent e = c \<and> child_size e > 1) tree = a # b # d # rest"
    by blast
  then show ?thesis by (simp add: st)
qed

section \<open>The layout fails on an empty cluster tree\<close>

text \<open>
  Claim C9. When no row of the condensed tree has \<open>child_size > 1\<close>, the pruned cluster
  tree is empty, \<open>_get_leaves\<close> raises \<open>ValueError\<close> (the minimum of an empty array of parents)
  instead of returning an empty list of leaves, and \<open>get_plot_data\<close>, which calls
  \<open>_get_leaves\<close> first, raises the same error, whatever the recursion limit, the leaf
  separation and the \<open>log_size\<close> flag are.
\<close>

theorem get_leaves_empty_cluster_tree:
  assumes "\<forall>e \<in> set tree. \<not> child_size e > 1"
  shows "get_leaves limit tree = Inl ValueError \<and>
    get_plot_data limit leaf_separation log_size tree = Inl ValueError"
proof -
  from assms have "filter (\<lambda>e. child_size e > 1) tree = []"
    by (simp add: filter_empty_conv)
  then have "get_leaves limit tree = Inl ValueError"
    by (simp add: get_leaves_def)
  then show ?thesis
    by (simp add: get_plot_data_def layout_coords_def)
qed

text \<open>A cluster of two points that drop out one after the other: no row has \<open>child_size > 1\<close>.\<close>

theorem get_leaves_empty_cluster_tree_witness:
  "get_leaves 100
     [\<lparr>parent = 2, child = 0, lambda_val = 1, child_size = 1\<rparr>,
      \<lparr>parent = 2, child = 1, lambda_val = 2, child_size = 1\<rparr>] = Inl ValueError \<and>
   get_plot_data 100 1 False
     [\<lparr>parent = 2, child = 0, lambda_val = 1, child_size = 1\<rparr>,
      \<lparr>parent = 2, child = 1, lambda_val = 2, child_size = 1\<rparr>] = Inl ValueError"
  using get_leaves_empty_cluster_tree
    [of "[\<lparr>parent = 2, child = 0, lambda_val = 1, child_size = 1\<rparr>,
          \<lparr>parent = 2, child = 1, lambda_val = 2, child_size = 1\<rparr>]" 100 1 False]
  by simp

section \<open>The layout fails on a cluster with three cluster children\<close>

text \<open>
  Claim C10. When some cluster \<open>c\<close> has three or more rows with \<open>child_size > 1\<close>, placing
  \<open>c\<close> raises \<open>ValueError\<close> in every state of the coordinates (the two-element
  destructuring of the rows of the split fails), and \<open>get_plot_data\<close> raises an error
  instead of returning a layout. So \<open>get_plot_data\<close> returns a layout only for trees in
  which every cluster has at most two cluster children.
\<close>

theorem get_plot_data_three_children:
  assumes "3 \<le> length (filter (\<lambda>e. parent e = c \<and> child_size e > 1) tree)"
  shows "(\<forall>st. place_cluster tree c st = Inl ValueError) \<and>
    (\<exists>e. get_plot_data limit leaf_separation log_size tree = Inl e)"
proof -
  have step: "\<And>st. place_cluster tree c st = Inl ValueError"
    using assms by (rule place_cluster_three)
  from assms have "filter (\<lambda>e. parent e = c \<and> child_size e > 1) tree \<noteq> []"
    by auto
  then obtain e where e: "e \<in> set tree" "parent e = c"
    by (auto simp: filter_empty_conv)
  then have cin: "c \<in> set (map parent tree)" by auto
  have "\<exists>e. layout_coords limit leaf_separation tree = Inl e"
  proof (cases "get_leaves limit tree")
    case (Inl e)
    then show ?thesis by (simp add: layout_coords_def)
  next
    case leaves: (Inr leaves)
    from cin obtain hi where hi: "array_max (map parent tree) = Inr hi"
      by (cases "map parent tree") auto
    from cin obtain lo where lo: "array_min (map parent tree) = Inr lo"
      by (cases "map parent tree") auto
    from array_min_le[OF lo cin] array_max_ge[OF hi cin]
    have "c \<in> set (cluster_range hi lo)" by (simp add: in_cluster_range)
    from fold_err_fails[OF this, of "place_cluster tree"] step
    show ?thesis by (simp add: layout_coords_def leaves hi lo)
  qed
  then have "\<exists>e. get_plot_data limit leaf_separation log_size tree = Inl e"
    by (auto simp: get_plot_data_def)
  with step show ?thesis by blast
qed

text \<open>A root with three cluster children of two points each.\<close>

theorem get_plot_data_three_children_witness:
  "length (filter (\<lambda>e. parent e = 6 \<and> child_size e > 1)
     [\<lparr>parent = 6, child = 7, lambda_val = 1, child_size = 2\<rparr>,
      \<lparr>parent = 6, child = 8, lambda_val = 1, child_size = 2\<rparr>,
      \<lparr>parent = 6, child = 9, lambda_val = 1, child_size = 2\<rparr>]) = 3 \<and>
   (\<exists>e. get_plot_data 100 1 False
     [\<lparr>parent = 6, child = 7, lambda_val = 1, child_size = 2\<rparr>,
      \<lparr>parent = 6, child = 8, lambda_val = 1, child_size = 2\<rparr>,
      \<lparr>parent = 6, child = 9, lambda_val = 1, child_size = 2\<rparr>] = Inl e)"
  using get_plot_data_three_children
    [of 6 "[\<lparr>parent = 6, child = 7, lambda_val = 1, child_size = 2\<rparr>,
            \<lparr>parent = 6, child = 8, lambda_val = 1, child_size = 2\<rparr>,
            \<lparr>parent = 6, child = 9, lambda_val = 1, child_size = 2\<rparr>]" 100 1 False]
  by simp

section \<open>The plot methods and their collaborators\<close>

text \<open>
  Claim C7. With matplotlib importable, \<open>MinimumSpanningTree.plot\<close> on data of more than
  32767 points issues the warning and returns \<open>None\<close>: it raises no exception and no
  projection is computed. On data of at most 32767 points the guard does not fire: no
  warning is issued, the projection that fits the number of dimensions is computed and the
  result is what the drawing gives.
\<close>

theorem mst_plot_size_guard:
  "(fst data_shape > 32767 \<longrightarrow>
      MinimumSpanningTree_plot True draw data_shape =
        Inr \<lparr>warnings = [''Too many data points for safe rendering of an minimal spanning tree!''],
             projected = None, returned = None\<rparr>) \<and>
   (fst data_shape \<le> 32767 \<longrightarrow>
      (\<exists>p. MinimumSpanningTree_plot True draw data_shape =
        (case draw p of Inl e \<Rightarrow> Inl e
         | Inr axis \<Rightarrow> Inr \<lparr>warnings = [], projected = Some p, returned = Some axis\<rparr>)))"
  by (auto simp: MinimumSpanningTree_plot_def Let_def)

theorem mst_plot_size_guard_witness:
  "MinimumSpanningTree_plot True (\<lambda>p. Inr (0::nat)) (32768, 3) =
     Inr \<lparr>warnings = [''Too many data points for safe rendering of an minimal spanning tree!''],
          projected = None, returned = None\<rparr> \<and>
   (\<exists>p. MinimumSpanningTree_plot True (\<lambda>p. Inr (0::nat)) (32767, 3) =
     Inr \<lparr>warnings = [], projected = Some p, returned = Some 0\<rparr>)"
  using mst_plot_size_guard [of "(32768, 3)" "\<lambda>p. Inr (0::nat)"]
    mst_plot_size_guard [of "(32767, 3)" "\<lambda>p. Inr (0::nat)"]
  by simp


section \<open>Placing the clusters\<close>








text \<open>
  Claim C3, as the code has it. Placing a cluster whose split has exactly the two rows
  \<open>l\<close> and \<open>r\<close>, both children having an x coordinate, sets the x of the cluster to the mean
  of the x of its two children and the y of each child to the \<open>lambda_val\<close> of its row.
  Placing a cluster with fewer than two cluster children changes nothing: no position is
  inherited from a single child. A cluster with exactly one cluster child therefore never
  gets an x coordinate, and \<open>get_plot_data\<close> raises an error on every tree that has such a
  cluster.
\<close>




section \<open>The bars of one cluster\<close>









section \<open>Breadth-first search\<close>

lemma set_children_of: "set (children_of tree fr) = tree_edges tree `` set fr"
  by (auto simp: children_of_def tree_edges_def Image_def)

lemma children_of_Nil: "children_of tree [] = []"
  by (simp add: children_of_def)

lemma levels_Nil: "nxt [] = [] \<Longrightarrow> levels nxt k [] = []"
  by (induction k) auto

lemma bfs_loop_levels:
  "(children_of tree ^^ k) fr = [] \<Longrightarrow>
   bfs_loop tree result fr = Some (result @ levels (children_of tree) k fr)"
proof (induction k arbitrary: result fr)
  case 0
  then show ?case by (simp add: bfs_loop.simps)
next
  case (Suc k)
  from Suc.prems have "(children_of tree ^^ k) (children_of tree fr) = []"
    by (simp add: funpow_swap1)
  from Suc.IH[OF this, of "result @ fr"] show ?case
    by (cases "fr = []")
       (simp_all add: bfs_loop.simps[of tree result fr] bfs_loop.simps[of tree result "[]"]
          children_of_Nil levels_Nil)
qed

lemma set_levels:
  assumes "\<And>fr. set (nxt fr) = E `` set fr"
  shows "(nxt ^^ k) fr = [] \<Longrightarrow> set (levels nxt k fr) = E\<^sup>* `` set fr"
proof (induction k arbitrary: fr)
  case 0
  then show ?case by simp
next
  case (Suc k)
  from Suc.prems have "(nxt ^^ k) (nxt fr) = []" by (simp add: funpow_swap1)
  from Suc.IH[OF this] have "set (levels nxt k (nxt fr)) = E\<^sup>* `` (E `` set fr)"
    by (simp add: assms)
  moreover have "set fr \<union> E\<^sup>* `` (E `` set fr) = E\<^sup>* `` set fr"
    by (auto intro: converse_rtrancl_into_rtrancl elim: converse_rtranclE)
  ultimately show ?case by simp
qed

lemma levels_terminate:
  assumes fin: "finite E" and acyc: "acyclic E"
    and nxt: "\<And>fr. set (nxt fr) = E `` set fr"
  shows "\<exists>k. (nxt ^^ k) fr = []"
proof -
  have wfE: "wf (E\<inverse>)" using fin acyc by (rule finite_acyclic_wf_converse)
  then have wfm: "wf (inv_image (mult (E\<inverse>)) mset)"
    by (intro wf_inv_image wf_mult)
  show ?thesis
  proof (induction fr rule: wf_induct_rule[OF wfm])
    case (1 fr)
    show ?case
    proof (cases "fr = []")
      case True
      then have "(nxt ^^ 0) fr = []" by simp
      then show ?thesis by blast
    next
      case False
      have "\<forall>k \<in> set_mset (mset (nxt fr)). \<exists>j \<in> set_mset (mset fr). (k, j) \<in> E\<inverse>"
        by (auto simp: nxt)
      with False have "({#} + mset (nxt fr), {#} + mset fr) \<in> mult (E\<inverse>)"
        by (intro one_step_implies_mult) auto
      then have "(nxt fr, fr) \<in> inv_image (mult (E\<inverse>)) mset" by (simp add: inv_image_def)
      from 1[OF this] obtain k where "(nxt ^^ k) (nxt fr) = []" by blast
      then have "(nxt ^^ Suc k) fr = []" by (simp add: funpow_swap1)
      then show ?thesis by blast
    qed
  qed
qed


lemma distinct_levels:
  assumes nxt: "\<And>fr. set (nxt fr) = E `` set fr"
    and dist: "\<And>fr. distinct fr \<Longrightarrow> distinct (nxt fr)"
    and uniq: "\<And>p p' v. (p, v) \<in> E \<Longrightarrow> (p', v) \<in> E \<Longrightarrow> p = p'"
    and acyc: "acyclic E"
  shows "distinct (result @ fr) \<Longrightarrow> set (result @ fr) \<subseteq> E\<^sup>* `` {s} \<Longrightarrow>
    (\<forall>v \<in> set (result @ fr). v \<noteq> s \<longrightarrow> (\<forall>p. (p, v) \<in> E \<longrightarrow> p \<in> set result)) \<Longrightarrow>
    distinct (result @ levels nxt k fr)"
proof (induction k arbitrary: result fr)
  case 0
  then show ?case by simp
next
  case (Suc k)
  have disj: "c \<notin> set (result @ fr)" if c: "c \<in> set (nxt fr)" for c
  proof
    assume in_old: "c \<in> set (result @ fr)"
    from c obtain p where p: "p \<in> set fr" "(p, c) \<in> E" by (auto simp: nxt)
    show False
    proof (cases "c = s")
      case True
      from p(1) Suc.prems(2) have "(s, p) \<in> E\<^sup>*" by auto
      with p(2) True have "(s, s) \<in> E\<^sup>+" by (simp add: rtrancl_into_trancl1)
      with acyc show False by (simp add: acyclic_def)
    next
      case False
      with Suc.prems(3) in_old p(2) have "p \<in> set result" by blast
      with p(1) Suc.prems(1) show False by auto
    qed
  qed
  have 1: "distinct ((result @ fr) @ nxt fr)"
    using Suc.prems(1) dist[of fr] disj by auto
  have 2: "set ((result @ fr) @ nxt fr) \<subseteq> E\<^sup>* `` {s}"
  proof -
    have "set (nxt fr) \<subseteq> E\<^sup>* `` {s}"
      using Suc.prems(2) by (auto simp: nxt intro: rtrancl_into_rtrancl)
    with Suc.prems(2) show ?thesis by simp
  qed
  have 3: "\<forall>v \<in> set ((result @ fr) @ nxt fr). v \<noteq> s \<longrightarrow>
      (\<forall>p. (p, v) \<in> E \<longrightarrow> p \<in> set (result @ fr))"
  proof (intro ballI impI allI)
    fix v p assume v: "v \<in> set ((result @ fr) @ nxt fr)" "v \<noteq> s" "(p, v) \<in> E"
    show "p \<in> set (result @ fr)"
    proof (cases "v \<in> set (nxt fr)")
      case True
      then obtain p0 where "p0 \<in> set fr" "(p0, v) \<in> E" by (auto simp: nxt)
      with uniq[OF v(3)] show ?thesis by auto
    next
      case False
      with v(1) have "v \<in> set (result @ fr)" by auto
      with Suc.prems(3) v(2,3) show ?thesis by auto
    qed
  qed
  from Suc.IH[OF 1 2 3] show ?case by simp
qed

lemma finite_tree_edges: "finite (tree_edges tree)"
  by (simp add: tree_edges_def)

lemma tree_edges_unique_parent:
  assumes "distinct (map child tree)" "(p, v) \<in> tree_edges tree" "(p', v) \<in> tree_edges tree"
  shows "p = p'"
proof -
  from assms(2,3) obtain e e' where e: "e \<in> set tree" "parent e = p" "child e = v"
    and e': "e' \<in> set tree" "parent e' = p'" "child e' = v"
    by (auto simp: tree_edges_def)
  from assms(1) have "inj_on child (set tree)" by (simp add: distinct_map)
  with e e' have "e = e'" by (auto dest: inj_onD)
  with e e' show ?thesis by simp
qed

lemma distinct_children_of: "distinct (map child tree) \<Longrightarrow> distinct (children_of tree fr)"
  by (simp add: children_of_def distinct_map_filter)

lemma bfs_cluster_tree_forest:
  assumes dist: "distinct (map child tree)" and acyc: "acyclic (tree_edges tree)"
  shows "\<exists>res. bfs_from_cluster_tree tree s = Some res \<and> distinct res \<and>
    set res = (tree_edges tree)\<^sup>* `` {s}"
proof -
  from levels_terminate[OF finite_tree_edges acyc set_children_of, where fr = "[s]"]
  obtain k where k: "(children_of tree ^^ k) [s] = []" by blast
  from bfs_loop_levels[OF k, of "[]"]
  have res: "bfs_from_cluster_tree tree s = Some (levels (children_of tree) k [s])"
    by (simp add: bfs_from_cluster_tree_def)
  have "distinct ([] @ levels (children_of tree) k [s])"
    by (rule distinct_levels[where E = "tree_edges tree" and s = s, OF set_children_of
          distinct_children_of[OF dist] tree_edges_unique_parent[OF dist] acyc]) auto
  moreover from set_levels[where E = "tree_edges tree", OF set_children_of k]
  have "set (levels (children_of tree) k [s]) = (tree_edges tree)\<^sup>* `` {s}" by simp
  ultimately show ?thesis using res by simp
qed

lemma bfs_cluster_tree_acyclic:
  assumes acyc: "acyclic (tree_edges tree)"
  shows "\<exists>res. bfs_from_cluster_tree tree s = Some res \<and>
    set res = (tree_edges tree)\<^sup>* `` {s}"
proof -
  from levels_terminate[OF finite_tree_edges acyc set_children_of, where fr = "[s]"]
  obtain k where k: "(children_of tree ^^ k) [s] = []" by blast
  from bfs_loop_levels[OF k, of "[]"]
  have res: "bfs_from_cluster_tree tree s = Some (levels (children_of tree) k [s])"
    by (simp add: bfs_from_cluster_tree_def)
  from set_levels[where E = "tree_edges tree", OF set_children_of k]
  have "set (levels (children_of tree) k [s]) = (tree_edges tree)\<^sup>* `` {s}" by simp
  then show ?thesis using res by simp
qed

lemma root_reaches_all:
  assumes acyc: "acyclic (tree_edges tree)"
    and root: "r \<in> set (map parent tree)"
    and only: "\<forall>e \<in> set tree. parent e \<noteq> r \<longrightarrow> parent e \<in> set (map child tree)"
  shows "(tree_edges tree)\<^sup>* `` {r} = set (map parent tree) \<union> set (map child tree)"
proof -
  have wfE: "wf (tree_edges tree)" using finite_tree_edges acyc by (rule finite_acyclic_wf)
  have reach: "v \<in> set (map parent tree) \<union> set (map child tree) \<longrightarrow> (r, v) \<in> (tree_edges tree)\<^sup>*" for v
  proof (induction v rule: wf_induct_rule[OF wfE])
    case (1 v)
    show ?case
    proof (intro impI)
      assume v: "v \<in> set (map parent tree) \<union> set (map child tree)"
      show "(r, v) \<in> (tree_edges tree)\<^sup>*"
      proof (cases "v = r")
        case True
        then show ?thesis by simp
      next
        case False
        with v only have "v \<in> set (map child tree)" by auto
        then obtain e where e: "e \<in> set tree" "child e = v" by auto
        then have pv: "(parent e, v) \<in> tree_edges tree" by (auto simp: tree_edges_def)
        from e(1) have "parent e \<in> set (map parent tree) \<union> set (map child tree)" by simp
        with 1[OF pv] have "(r, parent e) \<in> (tree_edges tree)\<^sup>*" by blast
        with pv show ?thesis by (auto intro: rtrancl_into_rtrancl)
      qed
    qed
  qed
  have into: "v \<in> set (map parent tree) \<union> set (map child tree)"
    if "(r, v) \<in> (tree_edges tree)\<^sup>*" for v
    using that
  proof (induction rule: rtrancl_induct)
    case base
    with root show ?case by simp
  next
    case (step y z)
    then show ?case by (auto simp: tree_edges_def)
  qed
  show ?thesis
  proof (intro equalityI subsetI)
    fix v assume "v \<in> (tree_edges tree)\<^sup>* `` {r}"
    then show "v \<in> set (map parent tree) \<union> set (map child tree)"
      using into by blast
  next
    fix v assume "v \<in> set (map parent tree) \<union> set (map child tree)"
    with reach[of v] show "v \<in> (tree_edges tree)\<^sup>* `` {r}" by blast
  qed
qed

lemma linkage_children_Nil: "linkage_children h [] = []"
  by (simp add: linkage_children_def)

lemma linkage_bfs_loop_step:
  assumes "fr \<noteq> []"
    and "rows = map (\<lambda>x. x - (int (length h) + 1)) (filter (\<lambda>x. x \<ge> int (length h) + 1) fr)"
  shows "linkage_bfs_loop h result fr =
    (if rows = [] then linkage_bfs_loop h (result @ fr) []
     else if list_ex (\<lambda>i. i \<ge> int (length h)) rows then Some (Inl IndexError)
     else linkage_bfs_loop h (result @ fr)
            (concat (map (\<lambda>i. [left_child (h ! nat i), right_child (h ! nat i)]) rows)))"
  by (subst linkage_bfs_loop.simps) (simp add: assms Let_def)

lemma linkage_bfs_loop_levels:
  assumes "(linkage_children h ^^ k) fr = []"
    and "\<forall>j < k. \<forall>x \<in> set ((linkage_children h ^^ j) fr). x \<le> 2 * int (length h)"
  shows "linkage_bfs_loop h result fr = Some (Inr (result @ levels (linkage_children h) k fr))"
  using assms
proof (induction k arbitrary: result fr)
  case 0
  then show ?case by (simp add: linkage_bfs_loop.simps)
next
  case (Suc k)
  show ?case
  proof (cases "fr = []")
    case True
    then show ?thesis
      by (simp add: linkage_bfs_loop.simps[of h result "[]"] linkage_children_Nil levels_Nil)
  next
    case False
    define rows where "rows = map (\<lambda>x. x - (int (length h) + 1)) (filter (\<lambda>x. x \<ge> int (length h) + 1) fr)"
    from Suc.prems(2) have "\<forall>x \<in> set ((linkage_children h ^^ 0) fr). x \<le> 2 * int (length h)"
      by blast
    then have small: "\<forall>i \<in> set rows. i < int (length h)"
      by (auto simp: rows_def)
    then have filt: "filter (\<lambda>i. i < int (length h)) rows = rows"
      by (simp add: filter_id_conv)
    have lc: "linkage_children h fr =
        concat (map (\<lambda>i. [left_child (h ! nat i), right_child (h ! nat i)]) rows)"
      by (simp add: linkage_children_def rows_def[symmetric] filt)
    from Suc.prems(1) have k: "(linkage_children h ^^ k) (linkage_children h fr) = []"
      by (simp add: funpow_swap1)
    have "\<forall>j < k. \<forall>x \<in> set ((linkage_children h ^^ j) (linkage_children h fr)). x \<le> 2 * int (length h)"
    proof (intro allI impI)
      fix j assume "j < k"
      then have "Suc j < Suc k" by simp
      with Suc.prems(2) have "\<forall>x \<in> set ((linkage_children h ^^ Suc j) fr). x \<le> 2 * int (length h)"
        by blast
      then show "\<forall>x \<in> set ((linkage_children h ^^ j) (linkage_children h fr)). x \<le> 2 * int (length h)"
        by (simp add: funpow_swap1)
    qed
    from Suc.IH[OF k this, of "result @ fr"]
    have IH: "linkage_bfs_loop h (result @ fr) (linkage_children h fr) =
        Some (Inr (result @ levels (linkage_children h) (Suc k) fr))"
      by simp
    show ?thesis
    proof (cases "rows = []")
      case True
      with lc have e: "linkage_children h fr = []" by simp
      have "linkage_bfs_loop h result fr = linkage_bfs_loop h (result @ fr) []"
        using linkage_bfs_loop_step[OF False rows_def, of result] True by simp
      with IH e show ?thesis by simp
    next
      case nonempty: False
      from small have "\<not> list_ex (\<lambda>i. i \<ge> int (length h)) rows"
        by (auto simp: list_ex_iff)
      then have "linkage_bfs_loop h result fr =
          linkage_bfs_loop h (result @ fr)
            (concat (map (\<lambda>i. [left_child (h ! nat i), right_child (h ! nat i)]) rows))"
        using linkage_bfs_loop_step[OF False rows_def, of result] nonempty by simp
      with IH lc show ?thesis by simp
    qed
  qed
qed

lemma set_linkage_children: "set (linkage_children h fr) = linkage_edges h `` set fr"
proof (intro equalityI subsetI)
  fix c assume "c \<in> set (linkage_children h fr)"
  then obtain x where x: "x \<in> set fr" "x \<ge> int (length h) + 1" "x - (int (length h) + 1) < int (length h)"
    and c: "c = left_child (h ! nat (x - (int (length h) + 1))) \<or>
            c = right_child (h ! nat (x - (int (length h) + 1)))"
    by (auto simp: linkage_children_def)
  let ?i = "nat (x - (int (length h) + 1))"
  from x have i: "?i < length h" and xi: "int (length h) + 1 + int ?i = x" by auto
  have "(int (length h) + 1 + int ?i, c) \<in> linkage_edges h"
    unfolding linkage_edges_def using i c by (intro UN_I[of ?i]) auto
  then have "(x, c) \<in> linkage_edges h" by (simp only: xi)
  with x(1) show "c \<in> linkage_edges h `` set fr" by blast
next
  fix c assume "c \<in> linkage_edges h `` set fr"
  then obtain x i where x: "x \<in> set fr" "i < length h" "x = int (length h) + 1 + int i"
    and c: "c = left_child (h ! i) \<or> c = right_child (h ! i)"
    by (auto simp: linkage_edges_def)
  from x have "x \<ge> int (length h) + 1" "x - (int (length h) + 1) < int (length h)"
    "nat (x - (int (length h) + 1)) = i"
    by auto
  with x(1) have "i \<in> nat ` set (filter (\<lambda>i. i < int (length h))
          (map (\<lambda>x. x - (int (length h) + 1)) (filter (\<lambda>x. x \<ge> int (length h) + 1) fr)))"
    by (intro image_eqI[where x = "x - (int (length h) + 1)"]) auto
  then obtain j where j: "j \<in> set (filter (\<lambda>i. i < int (length h))
          (map (\<lambda>x. x - (int (length h) + 1)) (filter (\<lambda>x. x \<ge> int (length h) + 1) fr)))" "nat j = i"
    by blast
  have "c \<in> set [left_child (h ! nat j), right_child (h ! nat j)]"
    using c j(2) by auto
  with j(1) show "c \<in> set (linkage_children h fr)"
    unfolding linkage_children_def set_concat set_map by blast
qed

lemma linkage_edges_iff:
  "(p, c) \<in> linkage_edges h \<longleftrightarrow>
     (\<exists>i < length h. p = int (length h) + 1 + int i \<and> (c = left_child (h ! i) \<or> c = right_child (h ! i)))"
  by (auto simp: linkage_edges_def)

lemma finite_linkage_edges: "finite (linkage_edges h)"
  by (simp add: linkage_edges_def)

lemma linkage_edges_less:
  "valid_linkage h \<Longrightarrow> (p, c) \<in> linkage_edges h \<Longrightarrow> 0 \<le> c \<and> c < p \<and> p \<le> 2 * int (length h)"
  by (auto simp: linkage_edges_iff valid_linkage_def)

lemma acyclic_linkage_edges: "valid_linkage h \<Longrightarrow> acyclic (linkage_edges h)"
  by (rule acyclicI_order[where f = "\<lambda>x. x"]) (auto dest: linkage_edges_less)

text \<open>A node is a child of one row only, and not twice of the same row.\<close>

lemma linkage_rows_disjoint:
  assumes "distinct (concat (map (\<lambda>row. [left_child row, right_child row]) h))"
    and "i < length h" "j < length h"
    and "c \<in> {left_child (h ! i), right_child (h ! i)}" "c \<in> {left_child (h ! j), right_child (h ! j)}"
  shows "i = j"
proof (rule ccontr)
  assume ne: "i \<noteq> j"
  let ?g = "\<lambda>row. [left_child row, right_child row]"
  from assms(1) have d: "distinct (concat (map ?g h))" .
  have "\<And>i j c. i < j \<Longrightarrow> j < length h \<Longrightarrow> c \<in> set (?g (h ! i)) \<Longrightarrow> c \<in> set (?g (h ! j)) \<Longrightarrow> False"
  proof -
    fix i j c assume ij: "i < j" "j < length h" and c: "c \<in> set (?g (h ! i))" "c \<in> set (?g (h ! j))"
    have h: "h = take j h @ drop j h" by simp
    from ij have "h ! i \<in> set (take j h)" by (auto simp: in_set_conv_nth intro!: exI[of _ i])
    with c(1) have 1: "c \<in> set (concat (map ?g (take j h)))" by auto
    from ij have "drop j h = h ! j # drop (Suc j) h" by (simp add: Cons_nth_drop_Suc)
    then have "h ! j \<in> set (drop j h)" by (simp only: list.set insertI1)
    with c(2) have 2: "c \<in> set (concat (map ?g (drop j h)))" by auto
    from d have "distinct (concat (map ?g (take j h @ drop j h)))" by simp
    then have "set (concat (map ?g (take j h))) \<inter> set (concat (map ?g (drop j h))) = {}"
      by (simp only: map_append concat_append distinct_append)
    with 1 2 show False by blast
  qed
  from this[of i j c] this[of j i c] ne assms(2-5) show False
    by (cases "i < j") auto
qed

lemma linkage_unique_parent:
  assumes "valid_linkage h" "(p, v) \<in> linkage_edges h" "(p', v) \<in> linkage_edges h"
  shows "p = p'"
proof -
  from assms(2) obtain i where i: "i < length h" "p = int (length h) + 1 + int i"
    "v \<in> {left_child (h ! i), right_child (h ! i)}" by (auto simp: linkage_edges_iff)
  from assms(3) obtain j where j: "j < length h" "p' = int (length h) + 1 + int j"
    "v \<in> {left_child (h ! j), right_child (h ! j)}" by (auto simp: linkage_edges_iff)
  from assms(1) have "distinct (concat (map (\<lambda>row. [left_child row, right_child row]) h))"
    by (simp add: valid_linkage_def)
  from linkage_rows_disjoint[OF this i(1) j(1) i(3) j(3)] i(2) j(2) show ?thesis by simp
qed

lemma linkage_left_right:
  assumes "distinct (concat (map (\<lambda>row. [left_child row, right_child row]) h))" "i < length h"
  shows "left_child (h ! i) \<noteq> right_child (h ! i)"
proof -
  let ?g = "\<lambda>row. [left_child row, right_child row]"
  define x where "x = h ! i"
  from assms(2) have "x \<in> set h" by (simp add: x_def)
  then obtain ys zs where "h = ys @ x # zs" by (auto simp: in_set_conv_decomp)
  then have "concat (map ?g h) = concat (map ?g ys) @ ?g x @ concat (map ?g zs)"
    by simp
  with assms(1) have "distinct (?g x)" by simp
  then show ?thesis by (simp add: x_def)
qed

lemma distinct_linkage_children:
  assumes v: "valid_linkage h" and d: "distinct fr"
  shows "distinct (linkage_children h fr)"
proof -
  let ?g = "\<lambda>i. [left_child (h ! nat i), right_child (h ! nat i)]"
  define rows where "rows = filter (\<lambda>i. i < int (length h))
          (map (\<lambda>x. x - (int (length h) + 1)) (filter (\<lambda>x. x \<ge> int (length h) + 1) fr))"
  from v have dc: "distinct (concat (map (\<lambda>row. [left_child row, right_child row]) h))"
    by (simp add: valid_linkage_def)
  have "distinct (map (\<lambda>x. x - (int (length h) + 1)) (filter (\<lambda>x. x \<ge> int (length h) + 1) fr))"
    using d by (simp add: distinct_map inj_on_def)
  then have drows: "distinct rows" by (simp add: rows_def)
  have rng: "\<forall>i \<in> set rows. 0 \<le> i \<and> i < int (length h)" by (auto simp: rows_def)
  from drows rng have "distinct (concat (map ?g rows))"
  proof (induction rows)
    case Nil
    then show ?case by simp
  next
    case (Cons i rows)
    from Cons.prems have i: "nat i < length h" "0 \<le> i" by auto
    have "set (?g i) \<inter> set (concat (map ?g rows)) = {}"
    proof (rule ccontr)
      assume "set (?g i) \<inter> set (concat (map ?g rows)) \<noteq> {}"
      then obtain c j where c: "c \<in> set (?g i)" "j \<in> set rows" "c \<in> set (?g j)" by auto
      from Cons.prems(2) c(2) have j: "nat j < length h" "0 \<le> j" by auto
      from linkage_rows_disjoint[OF dc i(1) j(1)] c(1,3) have "nat i = nat j" by simp
      with i(2) j(2) have "i = j" by simp
      with Cons.prems(1) c(2) show False by simp
    qed
    moreover from linkage_left_right[OF dc i(1)] have "distinct (?g i)" by simp
    moreover from Cons have "distinct (concat (map ?g rows))" by simp
    ultimately show ?case by simp
  qed
  then show ?thesis by (simp add: linkage_children_def rows_def)
qed

lemma linkage_reach_range:
  assumes "valid_linkage h" "(2 * int (length h), v) \<in> (linkage_edges h)\<^sup>*"
  shows "0 \<le> v \<and> v \<le> 2 * int (length h)"
  using assms(2)
proof (induction rule: rtrancl_induct)
  case base
  then show ?case by simp
next
  case (step y z)
  from linkage_edges_less[OF assms(1) step(2)] step(3) show ?case by simp
qed

lemma funpow_reach:
  assumes "\<And>fr. set (nxt fr) = E `` set fr"
  shows "set ((nxt ^^ j) fr) \<subseteq> E\<^sup>* `` set fr"
proof (induction j)
  case 0
  then show ?case by auto
next
  case (Suc j)
  show ?case
  proof
    fix x assume "x \<in> set ((nxt ^^ Suc j) fr)"
    then have "x \<in> E `` set ((nxt ^^ j) fr)" by (simp add: assms)
    then obtain y where y: "y \<in> set ((nxt ^^ j) fr)" "(y, x) \<in> E" by blast
    from y(1) Suc obtain z where z: "z \<in> set fr" "(z, y) \<in> E\<^sup>*" by blast
    from z(2) y(2) have "(z, x) \<in> E\<^sup>*" by (rule rtrancl_into_rtrancl)
    with z(1) show "x \<in> E\<^sup>* `` set fr" by blast
  qed
qed

lemma linkage_children_set:
  assumes v: "valid_linkage h"
  shows "set (concat (map (\<lambda>row. [left_child row, right_child row]) h)) = {0..<2 * int (length h)}"
proof -
  let ?cs = "concat (map (\<lambda>row. [left_child row, right_child row]) h)"
  have len: "length ?cs = 2 * length h" by (induction h) auto
  from v have d: "distinct ?cs" by (simp add: valid_linkage_def)
  have sub: "set ?cs \<subseteq> {0..<2 * int (length h)}"
  proof
    fix c assume "c \<in> set ?cs"
    then obtain row where "row \<in> set h" "c = left_child row \<or> c = right_child row" by auto
    then obtain i where "i < length h" "c = left_child (h ! i) \<or> c = right_child (h ! i)"
      by (auto simp: in_set_conv_nth)
    with v show "c \<in> {0..<2 * int (length h)}" by (auto simp: valid_linkage_def)
  qed
  have "card (set ?cs) = 2 * length h" by (simp only: distinct_card[OF d] len)
  also have "\<dots> = card {0..<2 * int (length h)}" by simp
  finally show ?thesis using sub by (intro card_subset_eq) auto
qed

lemma linkage_all_reached:
  assumes v: "valid_linkage h" and x: "0 \<le> x" "x \<le> 2 * int (length h)"
  shows "(2 * int (length h), x) \<in> (linkage_edges h)\<^sup>*"
  using x
proof (induction "nat (2 * int (length h) - x)" arbitrary: x rule: less_induct)
  case less
  show ?case
  proof (cases "x = 2 * int (length h)")
    case True
    then show ?thesis by simp
  next
    case False
    with less.prems have "x \<in> {0..<2 * int (length h)}" by simp
    with linkage_children_set[OF v]
    have "x \<in> set (concat (map (\<lambda>row. [left_child row, right_child row]) h))" by simp
    then obtain row where "row \<in> set h" "x = left_child row \<or> x = right_child row" by auto
    then obtain i where i: "i < length h" "x = left_child (h ! i) \<or> x = right_child (h ! i)"
      by (auto simp: in_set_conv_nth)
    then have e: "(int (length h) + 1 + int i, x) \<in> linkage_edges h"
      by (auto simp: linkage_edges_iff)
    from linkage_edges_less[OF v e] have "x < int (length h) + 1 + int i"
      "int (length h) + 1 + int i \<le> 2 * int (length h)" by simp_all
    with less.prems have "nat (2 * int (length h) - (int (length h) + 1 + int i)) < nat (2 * int (length h) - x)"
      "0 \<le> int (length h) + 1 + int i"
      by auto
    from less.hyps[OF this(1) this(2)] \<open>int (length h) + 1 + int i \<le> 2 * int (length h)\<close>
    have "(2 * int (length h), int (length h) + 1 + int i) \<in> (linkage_edges h)\<^sup>*" by simp
    with e show ?thesis by (auto intro: rtrancl_into_rtrancl)
  qed
qed

lemma bfs_linkage_tree_valid:
  assumes v: "valid_linkage h"
  shows "\<exists>res. bfs_from_linkage_tree h (2 * int (length h)) = Some (Inr res) \<and> distinct res \<and>
    set res = {0..2 * int (length h)} \<and> length res = 2 * length h + 1"
proof -
  let ?top = "2 * int (length h)"
  from levels_terminate[OF finite_linkage_edges acyclic_linkage_edges[OF v] set_linkage_children,
      where fr = "[?top]"]
  obtain k where k: "(linkage_children h ^^ k) [?top] = []" by blast
  have "\<forall>j < k. \<forall>x \<in> set ((linkage_children h ^^ j) [?top]). x \<le> ?top"
  proof (intro allI impI ballI)
    fix j x assume "x \<in> set ((linkage_children h ^^ j) [?top])"
    with funpow_reach[where E = "linkage_edges h" and j = j and fr = "[?top]", OF set_linkage_children]
    have "(?top, x) \<in> (linkage_edges h)\<^sup>*" by auto
    from linkage_reach_range[OF v this] show "x \<le> ?top" by simp
  qed
  from linkage_bfs_loop_levels[OF k this, of "[]"]
  have res: "bfs_from_linkage_tree h ?top = Some (Inr (levels (linkage_children h) k [?top]))"
    by (simp add: bfs_from_linkage_tree_def)
  have d: "distinct ([] @ levels (linkage_children h) k [?top])"
    by (rule distinct_levels[where E = "linkage_edges h" and s = ?top, OF set_linkage_children
          distinct_linkage_children[OF v] linkage_unique_parent[OF v] acyclic_linkage_edges[OF v]])
       auto
  from set_levels[where E = "linkage_edges h", OF set_linkage_children k]
  have "set (levels (linkage_children h) k [?top]) = (linkage_edges h)\<^sup>* `` {?top}" by simp
  also have "\<dots> = {0..?top}"
    using linkage_reach_range[OF v] linkage_all_reached[OF v] by auto
  finally have s: "set (levels (linkage_children h) k [?top]) = {0..?top}" .
  from d have "length (levels (linkage_children h) k [?top]) = card {0..?top}"
    by (simp add: distinct_card[symmetric] s)
  then have "length (levels (linkage_children h) k [?top]) = 2 * length h + 1" by simp
  with res d s show ?thesis by simp
qed

text \<open>
  Claim C5. On a forest in condensed-tree encoding (no node is the child of two rows and
  the parent-child relation has no cycle) \<open>_bfs_from_cluster_tree\<close> returns, from every
  start node, a list without repetition whose elements are exactly the nodes reachable
  from the start node; when the start node is the root (a parent, and the only parent that
  is not a child) the length of the list is the number of nodes of the tree. On a
  well-formed single linkage array \<open>_bfs_from_linkage_tree\<close>, started from the node of the
  last merge, returns without an error a list without repetition of all the nodes
  \<open>0 .. 2 * dim\<close>, so its length is the number of nodes.
\<close>

theorem bfs_completeness:
  "(distinct (map child tree) \<and> acyclic (tree_edges tree) \<longrightarrow>
     (\<exists>res. bfs_from_cluster_tree tree s = Some res \<and> distinct res \<and>
        set res = (tree_edges tree)\<^sup>* `` {s} \<and>
        (s \<in> set (map parent tree) \<and>
         (\<forall>e \<in> set tree. parent e \<noteq> s \<longrightarrow> parent e \<in> set (map child tree)) \<longrightarrow>
           length res = card (set (map parent tree) \<union> set (map child tree))))) \<and>
   (valid_linkage hierarchy \<longrightarrow>
     (\<exists>res. bfs_from_linkage_tree hierarchy (2 * int (length hierarchy)) = Some (Inr res) \<and>
        distinct res \<and> set res = {0..2 * int (length hierarchy)} \<and>
        length res = 2 * length hierarchy + 1))"
proof (intro conjI impI)
  assume f: "distinct (map child tree) \<and> acyclic (tree_edges tree)"
  then obtain res where res: "bfs_from_cluster_tree tree s = Some res" "distinct res"
    "set res = (tree_edges tree)\<^sup>* `` {s}"
    using bfs_cluster_tree_forest[of tree s] by blast
  have "length res = card (set (map parent tree) \<union> set (map child tree))"
    if "s \<in> set (map parent tree) \<and>
        (\<forall>e \<in> set tree. parent e \<noteq> s \<longrightarrow> parent e \<in> set (map child tree))"
  proof -
    from f that have "(tree_edges tree)\<^sup>* `` {s} = set (map parent tree) \<union> set (map child tree)"
      by (intro root_reaches_all) auto
    with res(2,3) show ?thesis by (simp only: distinct_card[symmetric])
  qed
  with res show "\<exists>res. bfs_from_cluster_tree tree s = Some res \<and> distinct res \<and>
        set res = (tree_edges tree)\<^sup>* `` {s} \<and>
        (s \<in> set (map parent tree) \<and>
         (\<forall>e \<in> set tree. parent e \<noteq> s \<longrightarrow> parent e \<in> set (map child tree)) \<longrightarrow>
           length res = card (set (map parent tree) \<union> set (map child tree)))"
    by blast
next
  assume "valid_linkage hierarchy"
  then show "\<exists>res. bfs_from_linkage_tree hierarchy (2 * int (length hierarchy)) = Some (Inr res) \<and>
        distinct res \<and> set res = {0..2 * int (length hierarchy)} \<and>
        length res = 2 * length hierarchy + 1"
    by (rule bfs_linkage_tree_valid)
qed

theorem bfs_completeness_witness:
  "bfs_from_cluster_tree
     [\<lparr>parent = 5, child = 6, lambda_val = 1, child_size = 3\<rparr>,
      \<lparr>parent = 5, child = 7, lambda_val = 3 / 2, child_size = 2\<rparr>] 5 = Some [5, 6, 7] \<and>
   (\<exists>res. bfs_from_cluster_tree
     [\<lparr>parent = 5, child = 6, lambda_val = 1, child_size = 3\<rparr>,
      \<lparr>parent = 5, child = 7, lambda_val = 3 / 2, child_size = 2\<rparr>] 5 = Some res \<and> length res = 3) \<and>
   bfs_from_linkage_tree
     [\<lparr>left_child = 0, right_child = 1, distance = 1, merged_size = 2\<rparr>,
      \<lparr>left_child = 3, right_child = 2, distance = 2, merged_size = 3\<rparr>] 4 = Some (Inr [4, 3, 2, 0, 1]) \<and>
   (\<exists>res. bfs_from_linkage_tree
     [\<lparr>left_child = 0, right_child = 1, distance = 1, merged_size = 2\<rparr>,
      \<lparr>left_child = 3, right_child = 2, distance = 2, merged_size = 3\<rparr>] 4 = Some (Inr res) \<and>
      distinct res \<and> length res = 5)"
proof -
  let ?T = "[\<lparr>parent = 5, child = 6, lambda_val = 1, child_size = 3\<rparr>,
      \<lparr>parent = 5, child = 7, lambda_val = 3 / 2, child_size = 2\<rparr>]"
  let ?H = "[\<lparr>left_child = 0, right_child = 1, distance = 1, merged_size = 2\<rparr>,
      \<lparr>left_child = 3, right_child = 2, distance = 2, merged_size = 3\<rparr>]"
  have a: "acyclic (tree_edges ?T)"
    by (rule acyclicI_order[where f = "\<lambda>x. - x"]) (auto simp: tree_edges_def)
  have d: "distinct (map child ?T)" by simp
  have r: "5 \<in> set (map parent ?T) \<and>
     (\<forall>e \<in> set ?T. parent e \<noteq> 5 \<longrightarrow> parent e \<in> set (map child ?T))" by simp
  have c: "card (set (map parent ?T) \<union> set (map child ?T)) = 3" by simp
  have v: "valid_linkage ?H"
    by (simp add: valid_linkage_def less_Suc_eq numeral_2_eq_2 all_conj_distrib)
  have 1: "bfs_from_cluster_tree ?T 5 = Some [5, 6, 7]"
    by (simp add: bfs_from_cluster_tree_def bfs_loop.simps children_of_def)
  have 2: "bfs_from_linkage_tree ?H 4 = Some (Inr [4, 3, 2, 0, 1])"
    by (simp add: bfs_from_linkage_tree_def linkage_bfs_loop.simps Let_def)
  from bfs_completeness[of ?T 5 ?H] a d r c v 1 2 show ?thesis
    by simp
qed

section \<open>Cluster selection\<close>

lemma collect_lookup:
  "\<forall>c \<in> set cs. c \<in> fst ` set stability \<Longrightarrow>
   collect (map (lookup (map_of stability)) cs) = Inr (map (\<lambda>c. the (map_of stability c)) cs)"
proof (induction cs)
  case Nil
  then show ?case by simp
next
  case (Cons c cs)
  from Cons.prems have "c \<in> dom (map_of stability)" by (simp add: dom_map_of_conv_image_fst)
  then obtain v where "map_of stability c = Some v" by blast
  with Cons show ?case by (simp add: lookup_def)
qed

lemma map_of_fold_unselect:
  "map_of (fold (\<lambda>sub_node d. if sub_node \<noteq> node then AList.update sub_node False d else d)
             subs is_cluster) x =
     (if x \<in> set subs \<and> x \<noteq> node then Some False else map_of is_cluster x)"
proof (induction subs arbitrary: is_cluster)
  case Nil
  then show ?case by simp
next
  case (Cons s subs)
  show ?case by (simp add: Cons.IH update_conv')
qed

lemma distinct_fold_unselect:
  "distinct (map fst is_cluster) \<Longrightarrow>
   distinct (map fst (fold (\<lambda>sub_node d. if sub_node \<noteq> node then AList.update sub_node False d else d)
             subs is_cluster))"
  by (induction subs arbitrary: is_cluster) (simp_all add: distinct_update)

text \<open>
  One round of the loop returns when the cluster tree has no cycle and the node and its
  cluster children have a stability; its two branches.
\<close>

lemma select_node_cases:
  assumes acyc: "acyclic (tree_edges cluster_tree)"
    and node: "node \<in> fst ` set stability"
    and kids: "\<forall>e \<in> set cluster_tree. parent e = node \<longrightarrow> child e \<in> fst ` set stability"
  shows "\<exists>stability' is_cluster'.
    select_node cluster_tree node (stability, is_cluster) = Some (Inr (stability', is_cluster')) \<and>
    (if sum_list (map (\<lambda>e. the (map_of stability (child e)))
           (filter (\<lambda>e. parent e = node) cluster_tree)) > the (map_of stability node)
     then stability' = AList.update node (sum_list (map (\<lambda>e. the (map_of stability (child e)))
             (filter (\<lambda>e. parent e = node) cluster_tree))) stability \<and>
          is_cluster' = AList.update node False is_cluster
     else stability' = stability \<and>
          (distinct (map fst is_cluster) \<longrightarrow> distinct (map fst is_cluster')) \<and>
          (\<forall>d. map_of is_cluster' d =
             (if (node, d) \<in> (tree_edges cluster_tree)\<^sup>+ then Some False else map_of is_cluster d)))"
proof -
  let ?cs = "map child (filter (\<lambda>e. parent e = node) cluster_tree)"
  let ?sum = "sum_list (map (\<lambda>e. the (map_of stability (child e)))
           (filter (\<lambda>e. parent e = node) cluster_tree))"
  from kids have "\<forall>c \<in> set ?cs. c \<in> fst ` set stability" by auto
  from collect_lookup[OF this]
  have col: "collect (map (lookup (map_of stability)) ?cs) = Inr (map (\<lambda>c. the (map_of stability c)) ?cs)" .
  have sum: "sum_list (map (\<lambda>c. the (map_of stability c)) ?cs) = ?sum"
    by (simp add: comp_def)
  from node have "node \<in> dom (map_of stability)" by (simp add: dom_map_of_conv_image_fst)
  then obtain v where v: "map_of stability node = Some v" by blast
  from bfs_cluster_tree_acyclic[OF acyc, of node] obtain subs where
    subs: "bfs_from_cluster_tree cluster_tree node = Some subs"
      "set subs = (tree_edges cluster_tree)\<^sup>* `` {node}" by blast
  have strict: "(d \<in> set subs \<and> d \<noteq> node) \<longleftrightarrow> (node, d) \<in> (tree_edges cluster_tree)\<^sup>+" for d
  proof -
    from acyc have "(node, node) \<notin> (tree_edges cluster_tree)\<^sup>+" by (simp add: acyclic_def)
    then show ?thesis by (auto simp: subs(2) rtrancl_eq_or_trancl)
  qed
  show ?thesis
  proof (cases "?sum > v")
    case True
    then show ?thesis
      using col v by (simp add: sum lookup_def del: map_map)
  next
    case False
    then show ?thesis
      using col v subs(1)
      by (simp add: sum lookup_def map_of_fold_unselect strict distinct_fold_unselect del: map_map)
  qed
qed


lemma select_node_props:
  assumes acyc: "acyclic (tree_edges cluster_tree)"
    and node: "node \<in> fst ` set stability"
    and kids: "\<forall>e \<in> set cluster_tree. child e \<in> fst ` set stability"
    and dist: "distinct (map fst is_cluster)"
  shows "\<exists>stability' is_cluster'.
    select_node cluster_tree node (stability, is_cluster) = Some (Inr (stability', is_cluster')) \<and>
    fst ` set stability' = fst ` set stability \<and>
    distinct (map fst is_cluster') \<and>
    (\<forall>d. map_of is_cluster d = Some False \<longrightarrow> map_of is_cluster' d = Some False) \<and>
    (\<forall>d. map_of is_cluster' d = Some True \<longrightarrow> map_of is_cluster d = Some True) \<and>
    (map_of is_cluster' node = Some True \<longrightarrow>
       (\<forall>d. (node, d) \<in> (tree_edges cluster_tree)\<^sup>+ \<longrightarrow> map_of is_cluster' d = Some False))"
proof -
  let ?sum = "sum_list (map (\<lambda>e. the (map_of stability (child e)))
           (filter (\<lambda>e. parent e = node) cluster_tree))"
  from kids have kids': "\<forall>e \<in> set cluster_tree. parent e = node \<longrightarrow> child e \<in> fst ` set stability"
    by blast
  from select_node_cases[OF acyc node kids', of is_cluster]
  obtain stability' is_cluster' where
    res: "select_node cluster_tree node (stability, is_cluster) = Some (Inr (stability', is_cluster'))"
    and cases: "if ?sum > the (map_of stability node)
     then stability' = AList.update node ?sum stability \<and>
          is_cluster' = AList.update node False is_cluster
     else stability' = stability \<and>
          (distinct (map fst is_cluster) \<longrightarrow> distinct (map fst is_cluster')) \<and>
          (\<forall>d. map_of is_cluster' d =
             (if (node, d) \<in> (tree_edges cluster_tree)\<^sup>+ then Some False else map_of is_cluster d))"
    by blast
  show ?thesis
  proof (cases "?sum > the (map_of stability node)")
    case True
    with cases have st: "stability' = AList.update node ?sum stability"
      and ic: "is_cluster' = AList.update node False is_cluster" by simp_all
    from node have 1: "fst ` set stability' = fst ` set stability"
      by (auto simp: st dom_update)
    have 2: "distinct (map fst is_cluster')" using dist by (simp add: ic distinct_update)
    have 3: "\<forall>d. map_of is_cluster d = Some False \<longrightarrow> map_of is_cluster' d = Some False"
      by (simp add: ic update_conv')
    have 4: "\<forall>d. map_of is_cluster' d = Some True \<longrightarrow> map_of is_cluster d = Some True"
      by (simp add: ic update_conv')
    have 5: "map_of is_cluster' node = Some True \<longrightarrow>
       (\<forall>d. (node, d) \<in> (tree_edges cluster_tree)\<^sup>+ \<longrightarrow> map_of is_cluster' d = Some False)"
      by (simp add: ic update_conv')
    show ?thesis
      using res 1 2 3 4 5
      by (intro exI[of _ stability'] exI[of _ is_cluster'] conjI) assumption+
  next
    case False
    with cases have st: "stability' = stability"
      and d: "distinct (map fst is_cluster')"
      and ic: "\<And>d. map_of is_cluster' d =
             (if (node, d) \<in> (tree_edges cluster_tree)\<^sup>+ then Some False else map_of is_cluster d)"
      using dist by simp_all
    have 3: "\<forall>d. map_of is_cluster d = Some False \<longrightarrow> map_of is_cluster' d = Some False"
      by (simp add: ic)
    have 4: "\<forall>d. map_of is_cluster' d = Some True \<longrightarrow> map_of is_cluster d = Some True"
      by (simp add: ic split: if_splits)
    have 5: "map_of is_cluster' node = Some True \<longrightarrow>
       (\<forall>d. (node, d) \<in> (tree_edges cluster_tree)\<^sup>+ \<longrightarrow> map_of is_cluster' d = Some False)"
      by (simp add: ic)
    have 1: "fst ` set stability' = fst ` set stability" by (simp add: st)
    show ?thesis
      using res 1 d 3 4 5
      by (intro exI[of _ stability'] exI[of _ is_cluster'] conjI) assumption+
  qed
qed

lemma select_loop_props:
  assumes acyc: "acyclic (tree_edges cluster_tree)"
  shows "set nodes \<subseteq> fst ` set stability \<Longrightarrow>
    \<forall>e \<in> set cluster_tree. child e \<in> fst ` set stability \<Longrightarrow>
    distinct (map fst is_cluster) \<Longrightarrow>
    \<exists>stability' is_cluster'.
      select_loop cluster_tree nodes (stability, is_cluster) = Some (Inr (stability', is_cluster')) \<and>
      distinct (map fst is_cluster') \<and>
      (\<forall>d. map_of is_cluster d = Some False \<longrightarrow> map_of is_cluster' d = Some False) \<and>
      (\<forall>d. map_of is_cluster' d = Some True \<longrightarrow> map_of is_cluster d = Some True) \<and>
      (\<forall>a \<in> set nodes. map_of is_cluster' a = Some True \<longrightarrow>
         (\<forall>d. (a, d) \<in> (tree_edges cluster_tree)\<^sup>+ \<longrightarrow> map_of is_cluster' d = Some False))"
proof (induction nodes arbitrary: stability is_cluster)
  case Nil
  then show ?case by simp
next
  case (Cons node nodes)
  from Cons.prems(1) have node: "node \<in> fst ` set stability" by simp
  from select_node_props[OF acyc node Cons.prems(2,3)]
  obtain st1 ic1 where
    step: "select_node cluster_tree node (stability, is_cluster) = Some (Inr (st1, ic1))"
    and keys: "fst ` set st1 = fst ` set stability"
    and d1: "distinct (map fst ic1)"
    and sticky1: "\<forall>d. map_of is_cluster d = Some False \<longrightarrow> map_of ic1 d = Some False"
    and origin1: "\<forall>d. map_of ic1 d = Some True \<longrightarrow> map_of is_cluster d = Some True"
    and done1: "map_of ic1 node = Some True \<longrightarrow>
       (\<forall>d. (node, d) \<in> (tree_edges cluster_tree)\<^sup>+ \<longrightarrow> map_of ic1 d = Some False)"
    by (elim exE conjE) (rule that)
  from Cons.prems(1,2) keys have p1: "set nodes \<subseteq> fst ` set st1"
    and p2: "\<forall>e \<in> set cluster_tree. child e \<in> fst ` set st1" by simp_all
  from Cons.IH[OF p1 p2 d1]
  obtain st2 ic2 where
    loop: "select_loop cluster_tree nodes (st1, ic1) = Some (Inr (st2, ic2))"
    and d2: "distinct (map fst ic2)"
    and sticky2: "\<forall>d. map_of ic1 d = Some False \<longrightarrow> map_of ic2 d = Some False"
    and origin2: "\<forall>d. map_of ic2 d = Some True \<longrightarrow> map_of ic1 d = Some True"
    and done2: "\<forall>a \<in> set nodes. map_of ic2 a = Some True \<longrightarrow>
         (\<forall>d. (a, d) \<in> (tree_edges cluster_tree)\<^sup>+ \<longrightarrow> map_of ic2 d = Some False)"
    by (elim exE conjE) (rule that)
  have res: "select_loop cluster_tree (node # nodes) (stability, is_cluster) = Some (Inr (st2, ic2))"
    using step loop by simp
  have sticky: "\<forall>d. map_of is_cluster d = Some False \<longrightarrow> map_of ic2 d = Some False"
    using sticky1 sticky2 by blast
  have origin: "\<forall>d. map_of ic2 d = Some True \<longrightarrow> map_of is_cluster d = Some True"
    using origin1 origin2 by blast
  have node_done: "map_of ic2 node = Some True \<longrightarrow>
      (\<forall>d. (node, d) \<in> (tree_edges cluster_tree)\<^sup>+ \<longrightarrow> map_of ic2 d = Some False)"
  proof (intro impI allI)
    fix d assume t: "map_of ic2 node = Some True" and r: "(node, d) \<in> (tree_edges cluster_tree)\<^sup>+"
    from t origin2 have "map_of ic1 node = Some True" by blast
    with done1 r have "map_of ic1 d = Some False" by blast
    with sticky2 show "map_of ic2 d = Some False" by blast
  qed
  have fin: "\<forall>a \<in> set (node # nodes). map_of ic2 a = Some True \<longrightarrow>
         (\<forall>d. (a, d) \<in> (tree_edges cluster_tree)\<^sup>+ \<longrightarrow> map_of ic2 d = Some False)"
  proof
    fix a assume "a \<in> set (node # nodes)"
    then have "a = node \<or> a \<in> set nodes" by simp
    then show "map_of ic2 a = Some True \<longrightarrow>
         (\<forall>d. (a, d) \<in> (tree_edges cluster_tree)\<^sup>+ \<longrightarrow> map_of ic2 d = Some False)"
    proof
      assume "a = node"
      with node_done show ?thesis by (simp only:)
    next
      assume "a \<in> set nodes"
      with done2 show ?thesis by (rule bspec)
    qed
  qed
  show ?case
    using res d2 sticky origin fin
    by (intro exI[of _ st2] exI[of _ ic2] conjI) assumption+
qed

lemma node_list_of_props:
  assumes "distinct (map fst stability)"
  shows "distinct (node_list_of stability) \<and> sorted (rev (node_list_of stability)) \<and>
    set (node_list_of stability) \<subseteq> fst ` set stability \<and>
    (\<forall>r. (\<forall>k \<in> fst ` set stability. r \<le> k) \<longrightarrow> r \<notin> set (node_list_of stability)) \<and>
    (\<forall>r. r \<in> fst ` set stability \<and> (\<forall>k \<in> fst ` set stability. r \<le> k) \<longrightarrow>
       set (node_list_of stability) = fst ` set stability - {r})"
proof -
  define xs where "xs = sort (map fst stability)"
  have nl: "node_list_of stability = rev (tl xs)"
    by (simp add: node_list_of_def xs_def butlast_rev)
  have d: "distinct xs" and s: "sorted xs" and set: "set xs = fst ` set stability"
    using assms by (simp_all add: xs_def)
  have 1: "distinct (node_list_of stability)" using d by (simp add: nl distinct_tl)
  have 2: "sorted (rev (node_list_of stability))" using s by (simp add: nl sorted_tl)
  have 3: "set (node_list_of stability) \<subseteq> fst ` set stability"
  proof
    fix x assume "x \<in> set (node_list_of stability)"
    then have "x \<in> set (tl xs)" by (simp add: nl)
    then have "x \<in> set xs" by (cases xs) auto
    with set show "x \<in> fst ` set stability" by simp
  qed
  have 4: "r \<notin> set (node_list_of stability)" if r: "\<forall>k \<in> fst ` set stability. r \<le> k" for r
  proof (cases xs)
    case Nil
    then show ?thesis by (simp add: nl)
  next
    case (Cons x xs')
    show ?thesis
    proof
      assume "r \<in> set (node_list_of stability)"
      with Cons have rin: "r \<in> set xs'" by (simp add: nl)
      with s Cons have "x \<le> r" by simp
      moreover have "x \<in> fst ` set stability" using set Cons by (metis list.set_intros(1))
      with r have "r \<le> x" by blast
      ultimately have "r = x" by simp
      with d Cons rin show False by simp
    qed
  qed
  have 5: "set (node_list_of stability) = fst ` set stability - {r}"
    if r: "r \<in> fst ` set stability \<and> (\<forall>k \<in> fst ` set stability. r \<le> k)" for r
  proof (cases xs)
    case Nil
    with set r show ?thesis by simp
  next
    case (Cons x xs')
    have "r = x"
    proof (rule ccontr)
      assume "r \<noteq> x"
      with r set Cons have rin: "r \<in> set xs'" by auto
      with s Cons have "x \<le> r" by simp
      moreover have "x \<in> fst ` set stability" using set Cons by (metis list.set_intros(1))
      with r have "r \<le> x" by blast
      ultimately show False using \<open>r \<noteq> x\<close> by simp
    qed
    with d Cons set show ?thesis by (auto simp: nl)
  qed
  from 1 2 3 4 5 show ?thesis by blast
qed

lemma map_of_all_True:
  "map_of (map (\<lambda>c. (c, True)) cs) a = (if a \<in> set cs then Some True else None)"
  by (induction cs) auto

text \<open>
  Claim C2. Let the cluster tree (the rows with \<open>child_size > 1\<close>) have no cycle, let
  \<open>stability\<close> be a dictionary (one entry for each key) with an entry for every child of
  the cluster tree. Then \<open>_select_clusters\<close> returns a list, no node of the list is a strict
  descendant in the cluster tree of a node of the list (so no two returned nodes are
  ancestor and descendant of each other), and the root, the smallest parent id, is not in
  the list when no key of \<open>stability\<close> is below it.
\<close>

theorem select_clusters_antichain:
  assumes acyc: "acyclic (tree_edges (filter (\<lambda>e. child_size e > 1) raw_tree))"
    and keys: "distinct (map fst stability)"
    and kids: "\<forall>e \<in> set raw_tree. child_size e > 1 \<longrightarrow> child e \<in> fst ` set stability"
  shows "\<exists>res. select_clusters raw_tree stability = Some (Inr res) \<and>
    (\<forall>a \<in> set res. \<forall>b \<in> set res.
       (a, b) \<notin> (tree_edges (filter (\<lambda>e. child_size e > 1) raw_tree))\<^sup>+) \<and>
    (\<forall>r. array_min (map parent raw_tree) = Inr r \<and> (\<forall>k \<in> fst ` set stability. r \<le> k) \<longrightarrow>
       r \<notin> set res)"
proof -
  let ?ct = "filter (\<lambda>e. child_size e > 1) raw_tree"
  let ?nl = "node_list_of stability"
  let ?init = "map (\<lambda>cluster. (cluster, True)) ?nl"
  from node_list_of_props[OF keys] have dnl: "distinct ?nl"
    and sub: "set ?nl \<subseteq> fst ` set stability"
    and minkey: "\<And>r. (\<forall>k \<in> fst ` set stability. r \<le> k) \<Longrightarrow> r \<notin> set ?nl"
    by blast+
  from kids have kids': "\<forall>e \<in> set ?ct. child e \<in> fst ` set stability" by simp
  from dnl have dinit: "distinct (map fst ?init)" by (simp add: comp_def)
  from select_loop_props[OF acyc sub kids' dinit]
  obtain st' ic' where
    loop: "select_loop ?ct ?nl (stability, ?init) = Some (Inr (st', ic'))"
    and d: "distinct (map fst ic')"
    and origin: "\<forall>d. map_of ic' d = Some True \<longrightarrow> map_of ?init d = Some True"
    and fin: "\<forall>a \<in> set ?nl. map_of ic' a = Some True \<longrightarrow>
         (\<forall>d. (a, d) \<in> (tree_edges ?ct)\<^sup>+ \<longrightarrow> map_of ic' d = Some False)"
    by (elim exE conjE) (rule that)
  let ?res = "map fst (filter snd ic')"
  have res: "select_clusters raw_tree stability = Some (Inr ?res)"
    using loop by (simp add: select_clusters_def Let_def)
  have sel: "map_of ic' a = Some True \<and> a \<in> set ?nl" if "a \<in> set ?res" for a
  proof -
    from that have "(a, True) \<in> set ic'" by auto
    with d have t: "map_of ic' a = Some True" by simp
    with origin have "map_of ?init a = Some True" by blast
    then have "a \<in> set ?nl" by (simp add: map_of_all_True split: if_splits)
    with t show ?thesis by simp
  qed
  have anti: "\<forall>a \<in> set ?res. \<forall>b \<in> set ?res. (a, b) \<notin> (tree_edges ?ct)\<^sup>+"
  proof (intro ballI notI)
    fix a b assume a: "a \<in> set ?res" and b: "b \<in> set ?res" and ab: "(a, b) \<in> (tree_edges ?ct)\<^sup>+"
    from sel[OF a] fin ab have "map_of ic' b = Some False" by blast
    with sel[OF b] show False by simp
  qed
  have root: "\<forall>r. array_min (map parent raw_tree) = Inr r \<and> (\<forall>k \<in> fst ` set stability. r \<le> k) \<longrightarrow>
       r \<notin> set ?res"
  proof (intro allI impI notI)
    fix r assume "array_min (map parent raw_tree) = Inr r \<and> (\<forall>k \<in> fst ` set stability. r \<le> k)"
      and "r \<in> set ?res"
    with sel[of r] minkey[of r] show False by blast
  qed
  show ?thesis
    using res anti root
    by (intro exI[of _ ?res] conjI) assumption+
qed

text \<open>
  The children 8 and 9 of node 6 have the stabilities 1 and 1, more together than the
  stability 1 of node 6: the nodes 9, 8 and 7 are selected, node 6 and the root 5 are not.
\<close>

theorem select_clusters_antichain_witness:
  "select_clusters
     [\<lparr>parent = 5, child = 6, lambda_val = 1, child_size = 4\<rparr>,
      \<lparr>parent = 5, child = 7, lambda_val = 1, child_size = 2\<rparr>,
      \<lparr>parent = 6, child = 8, lambda_val = 2, child_size = 2\<rparr>,
      \<lparr>parent = 6, child = 9, lambda_val = 2, child_size = 2\<rparr>]
     [(5, 0), (6, 1), (7, 1 / 2), (8, 1), (9, 1)] = Some (Inr [9, 8, 7]) \<and>
   (\<exists>res. select_clusters
     [\<lparr>parent = 5, child = 6, lambda_val = 1, child_size = 4\<rparr>,
      \<lparr>parent = 5, child = 7, lambda_val = 1, child_size = 2\<rparr>,
      \<lparr>parent = 6, child = 8, lambda_val = 2, child_size = 2\<rparr>,
      \<lparr>parent = 6, child = 9, lambda_val = 2, child_size = 2\<rparr>]
     [(5, 0), (6, 1), (7, 1 / 2), (8, 1), (9, 1)] = Some (Inr res) \<and> 5 \<notin> set res)"
proof -
  let ?T = "[\<lparr>parent = 5, child = 6, lambda_val = 1, child_size = 4\<rparr>,
      \<lparr>parent = 5, child = 7, lambda_val = 1, child_size = 2\<rparr>,
      \<lparr>parent = 6, child = 8, lambda_val = 2, child_size = 2\<rparr>,
      \<lparr>parent = 6, child = 9, lambda_val = 2, child_size = 2\<rparr>]"
  let ?S = "[(5, 0), (6, 1), (7, 1 / 2), (8, 1), (9, 1)] :: (int \<times> real) list"
  have a: "acyclic (tree_edges (filter (\<lambda>e. child_size e > 1) ?T))"
    by (rule acyclicI_order[where f = "\<lambda>x. - x"]) (auto simp: tree_edges_def)
  have d: "distinct (map fst ?S)" by simp
  have k: "\<forall>e \<in> set ?T. child_size e > 1 \<longrightarrow> child e \<in> fst ` set ?S" by simp
  have m: "array_min (map parent ?T) = Inr 5 \<and> (\<forall>k \<in> fst ` set ?S. 5 \<le> k)" by simp
  have v: "select_clusters ?T ?S = Some (Inr [9, 8, 7])"
    by (simp add: select_clusters_def node_list_of_def lookup_def bfs_from_cluster_tree_def
        bfs_loop.simps children_of_def)
  from select_clusters_antichain[OF a d k] m v show ?thesis by blast
qed

text \<open>
  The loop of \<open>_select_clusters\<close> refines the steps of the specification: the stabilities
  and the set of the nodes marked \<open>True\<close> after the loop are what the steps of the
  specification give, from the stabilities and the marks before the loop.
\<close>

lemma select_loop_refines:
  assumes acyc: "acyclic (tree_edges cluster_tree)"
  shows "set nodes \<subseteq> fst ` set stability \<Longrightarrow>
    \<forall>e \<in> set cluster_tree. child e \<in> fst ` set stability \<Longrightarrow>
    distinct (map fst is_cluster) \<Longrightarrow>
    \<exists>stability' is_cluster'.
      select_loop cluster_tree nodes (stability, is_cluster) = Some (Inr (stability', is_cluster')) \<and>
      distinct (map fst is_cluster') \<and>
      (\<lambda>k. the (map_of stability' k), {n. map_of is_cluster' n = Some True}) =
        fold (spec_select_step cluster_tree) nodes
          (\<lambda>k. the (map_of stability k), {n. map_of is_cluster n = Some True})"
proof (induction nodes arbitrary: stability is_cluster)
  case Nil
  then show ?case by simp
next
  case (Cons node nodes)
  let ?sum = "sum_list (map (\<lambda>e. the (map_of stability (child e)))
           (filter (\<lambda>e. parent e = node) cluster_tree))"
  let ?f = "\<lambda>k. the (map_of stability k)"
  let ?S = "{n. map_of is_cluster n = Some True}"
  from Cons.prems(1) have node: "node \<in> fst ` set stability" by simp
  from Cons.prems(2) have kids': "\<forall>e \<in> set cluster_tree. parent e = node \<longrightarrow> child e \<in> fst ` set stability"
    by blast
  from select_node_cases[OF acyc node kids', of is_cluster]
  obtain st1 ic1 where
    step: "select_node cluster_tree node (stability, is_cluster) = Some (Inr (st1, ic1))"
    and cases: "if ?sum > the (map_of stability node)
     then st1 = AList.update node ?sum stability \<and>
          ic1 = AList.update node False is_cluster
     else st1 = stability \<and>
          (distinct (map fst is_cluster) \<longrightarrow> distinct (map fst ic1)) \<and>
          (\<forall>d. map_of ic1 d =
             (if (node, d) \<in> (tree_edges cluster_tree)\<^sup>+ then Some False else map_of is_cluster d))"
    by blast
  have abs: "(\<lambda>k. the (map_of st1 k), {n. map_of ic1 n = Some True}) =
      spec_select_step cluster_tree node (?f, ?S)"
    and keys: "fst ` set st1 = fst ` set stability"
    and d1: "distinct (map fst ic1)"
  proof -
    show "(\<lambda>k. the (map_of st1 k), {n. map_of ic1 n = Some True}) =
      spec_select_step cluster_tree node (?f, ?S)"
    proof (cases "?sum > the (map_of stability node)")
      case True
      with cases have st: "st1 = AList.update node ?sum stability"
        and ic: "ic1 = AList.update node False is_cluster" by simp_all
      have 1: "(\<lambda>k. the (map_of st1 k)) = ?f(node := ?sum)"
        by (rule ext) (simp add: st update_conv')
      have 2: "{n. map_of ic1 n = Some True} = ?S - {node}"
        by (auto simp: ic update_conv')
      from True 1 2 show ?thesis by (simp add: Let_def)
    next
      case False
      with cases have st: "st1 = stability"
        and ic: "\<forall>d. map_of ic1 d =
             (if (node, d) \<in> (tree_edges cluster_tree)\<^sup>+ then Some False else map_of is_cluster d)"
        by simp_all
      have 2: "{n. map_of ic1 n = Some True} = ?S - (tree_edges cluster_tree)\<^sup>+ `` {node}"
      proof (rule set_eqI)
        fix n
        from ic have "map_of ic1 n =
             (if (node, n) \<in> (tree_edges cluster_tree)\<^sup>+ then Some False else map_of is_cluster n)" ..
        then show "n \<in> {n. map_of ic1 n = Some True} \<longleftrightarrow> n \<in> ?S - (tree_edges cluster_tree)\<^sup>+ `` {node}"
          by simp
      qed
      from False st 2 show ?thesis by (simp add: Let_def)
    qed
    show "fst ` set st1 = fst ` set stability"
    proof (cases "?sum > the (map_of stability node)")
      case True
      with cases have st: "st1 = AList.update node ?sum stability" by simp
      from node show ?thesis by (auto simp: st dom_update)
    next
      case False
      with cases show ?thesis by simp
    qed
    show "distinct (map fst ic1)"
    proof (cases "?sum > the (map_of stability node)")
      case True
      with cases have "ic1 = AList.update node False is_cluster" by simp
      with Cons.prems(3) show ?thesis by (simp add: distinct_update)
    next
      case False
      with cases Cons.prems(3) show ?thesis by simp
    qed
  qed
  from Cons.prems(1,2) keys have p1: "set nodes \<subseteq> fst ` set st1"
    and p2: "\<forall>e \<in> set cluster_tree. child e \<in> fst ` set st1" by simp_all
  from Cons.IH[OF p1 p2 d1]
  obtain st2 ic2 where
    loop: "select_loop cluster_tree nodes (st1, ic1) = Some (Inr (st2, ic2))"
    and d2: "distinct (map fst ic2)"
    and abs2: "(\<lambda>k. the (map_of st2 k), {n. map_of ic2 n = Some True}) =
        fold (spec_select_step cluster_tree) nodes
          (\<lambda>k. the (map_of st1 k), {n. map_of ic1 n = Some True})"
    by (elim exE conjE) (rule that)
  have res: "select_loop cluster_tree (node # nodes) (stability, is_cluster) = Some (Inr (st2, ic2))"
    using step loop by simp
  have fin: "(\<lambda>k. the (map_of st2 k), {n. map_of ic2 n = Some True}) =
        fold (spec_select_step cluster_tree) (node # nodes) (?f, ?S)"
    using abs2 abs by (simp del: spec_select_step.simps)
  show ?case
    using res d2 fin
    by (intro exI[of _ st2] exI[of _ ic2] conjI) assumption+
qed

lemma select_clusters_refines:
  assumes acyc: "acyclic (tree_edges (filter (\<lambda>e. child_size e > 1) raw_tree))"
    and keys: "distinct (map fst stability)"
    and kids: "\<forall>e \<in> set raw_tree. child_size e > 1 \<longrightarrow> child e \<in> fst ` set stability"
  shows "\<exists>res. select_clusters raw_tree stability = Some (Inr res) \<and> distinct res \<and>
      set res = spec_select_clusters (filter (\<lambda>e. child_size e > 1) raw_tree)
                  (node_list_of stability) (\<lambda>k. the (map_of stability k))"
proof -
  let ?ct = "filter (\<lambda>e. child_size e > 1) raw_tree"
  let ?nl = "node_list_of stability"
  let ?init = "map (\<lambda>cluster. (cluster, True)) ?nl"
  from node_list_of_props[OF keys] have dnl: "distinct ?nl"
    and sub: "set ?nl \<subseteq> fst ` set stability"
    by blast+
  from kids have kids': "\<forall>e \<in> set ?ct. child e \<in> fst ` set stability" by simp
  from dnl have dinit: "distinct (map fst ?init)" by (simp add: comp_def)
  have init: "{n. map_of ?init n = Some True} = set ?nl"
    by (auto simp: map_of_all_True)
  from select_loop_refines[OF acyc sub kids' dinit]
  obtain st' ic' where
    loop: "select_loop ?ct ?nl (stability, ?init) = Some (Inr (st', ic'))"
    and d: "distinct (map fst ic')"
    and abs: "(\<lambda>k. the (map_of st' k), {n. map_of ic' n = Some True}) =
        fold (spec_select_step ?ct) ?nl (\<lambda>k. the (map_of stability k), {n. map_of ?init n = Some True})"
    by (elim exE conjE) (rule that)
  let ?res = "map fst (filter snd ic')"
  have res: "select_clusters raw_tree stability = Some (Inr ?res)"
    using loop by (simp add: select_clusters_def Let_def)
  have dres: "distinct ?res" using d by (simp add: distinct_map_filter)
  have "set ?res = {n. map_of ic' n = Some True}"
  proof (rule set_eqI)
    fix a
    have "a \<in> set ?res \<longleftrightarrow> (a, True) \<in> set ic'" by force
    also have "\<dots> \<longleftrightarrow> map_of ic' a = Some True" using d by simp
    finally show "a \<in> set ?res \<longleftrightarrow> a \<in> {n. map_of ic' n = Some True}" by simp
  qed
  also have "\<dots> = snd (fold (spec_select_step ?ct) ?nl (\<lambda>k. the (map_of stability k), set ?nl))"
    using abs[symmetric] by (simp only: init snd_conv)
  finally have sres: "set ?res = spec_select_clusters ?ct ?nl (\<lambda>k. the (map_of stability k))"
    by (simp only: spec_select_clusters_def)
  show ?thesis
    using res dres sres by (intro exI[of _ ?res] conjI) assumption+
qed

lemma node_list_of_spec_nodes:
  assumes keys: "distinct (map fst stability)"
    and r: "array_min (map parent cluster_tree) = Inr r"
    and nodes: "fst ` set stability = set (map parent cluster_tree) \<union> set (map child cluster_tree)"
    and least: "\<forall>k \<in> fst ` set stability. r \<le> k"
  shows "node_list_of stability = spec_nodes cluster_tree"
proof -
  from array_min_in[OF r] nodes have rin: "r \<in> fst ` set stability" by simp
  from node_list_of_props[OF keys] rin least
  have d: "distinct (node_list_of stability)" and s: "sorted (rev (node_list_of stability))"
    and set: "set (node_list_of stability) = fst ` set stability - {r}" by blast+
  have set': "set (spec_nodes cluster_tree) = fst ` set stability - {r}"
    using r nodes by (auto simp: spec_nodes_def)
  have "rev (node_list_of stability) = rev (spec_nodes cluster_tree)"
  proof (rule sorted_distinct_set_unique)
    show "sorted (rev (node_list_of stability))" by (rule s)
    show "distinct (rev (node_list_of stability))" using d by simp
    show "sorted (rev (spec_nodes cluster_tree))" by (simp add: spec_nodes_def)
    show "distinct (rev (spec_nodes cluster_tree))" by (simp add: spec_nodes_def)
    show "set (rev (node_list_of stability)) = set (rev (spec_nodes cluster_tree))"
      using set set' by simp
  qed
  then show ?thesis by simp
qed

text \<open>
  Claim C1, as the code has it. Let the cluster tree have no cycle and let \<open>stability\<close> be a
  dictionary with an entry for every child of the cluster tree. The nodes that
  \<open>_select_clusters\<close> processes are the keys of \<open>stability\<close> in descending order without the
  last one, the smallest key; they are the nodes of the specification (the node ids of the
  cluster tree without the root, in descending order) when the keys of \<open>stability\<close> are the
  node ids of the cluster tree and the root is the smallest of them, as it is in the result
  of \<open>compute_stability\<close>. \<open>_select_clusters\<close> returns, without repetition, exactly the nodes
  that the steps of the specification leave selected when they process this list: for
  each node of the list in turn, if the sum of the stabilities of its cluster children
  exceeds its stability, the node is marked not selected and its stability is replaced by
  the sum; otherwise the node keeps its mark and every strict descendant of the node in
  the cluster tree is marked not selected. On the tree with the root 5 and its two
  children 6 and 7, with the stabilities 1.2 of 6 and 0.5 of 7 and any stability \<open>s\<close> of the
  root, the result is the list of 7 and 6.
\<close>

theorem select_clusters_rule:
  assumes acyc: "acyclic (tree_edges (filter (\<lambda>e. child_size e > 1) raw_tree))"
    and keys: "distinct (map fst stability)"
    and kids: "\<forall>e \<in> set raw_tree. child_size e > 1 \<longrightarrow> child e \<in> fst ` set stability"
  shows "distinct (node_list_of stability) \<and> sorted (rev (node_list_of stability)) \<and>
    (\<forall>r. r \<in> fst ` set stability \<and> (\<forall>k \<in> fst ` set stability. r \<le> k) \<longrightarrow>
       set (node_list_of stability) = fst ` set stability - {r}) \<and>
    (\<forall>r. array_min (map parent (filter (\<lambda>e. child_size e > 1) raw_tree)) = Inr r \<and>
         fst ` set stability = set (map parent (filter (\<lambda>e. child_size e > 1) raw_tree)) \<union>
                              set (map child (filter (\<lambda>e. child_size e > 1) raw_tree)) \<and>
         (\<forall>k \<in> fst ` set stability. r \<le> k) \<longrightarrow>
       node_list_of stability = spec_nodes (filter (\<lambda>e. child_size e > 1) raw_tree)) \<and>
    (\<exists>res. select_clusters raw_tree stability = Some (Inr res) \<and> distinct res \<and>
       set res = spec_select_clusters (filter (\<lambda>e. child_size e > 1) raw_tree)
                   (node_list_of stability) (\<lambda>k. the (map_of stability k))) \<and>
    (\<forall>s. select_clusters
       [\<lparr>parent = 5, child = 6, lambda_val = 1, child_size = 3\<rparr>,
        \<lparr>parent = 5, child = 7, lambda_val = 3 / 2, child_size = 2\<rparr>]
       [(5, s), (6, 6 / 5), (7, 1 / 2)] = Some (Inr [7, 6]))"
proof (intro conjI allI impI)
  from node_list_of_props[OF keys] show "distinct (node_list_of stability)"
    and "sorted (rev (node_list_of stability))" by blast+
next
  fix r assume "r \<in> fst ` set stability \<and> (\<forall>k \<in> fst ` set stability. r \<le> k)"
  with node_list_of_props[OF keys] show "set (node_list_of stability) = fst ` set stability - {r}"
    by blast
next
  fix r
  assume h: "array_min (map parent (filter (\<lambda>e. child_size e > 1) raw_tree)) = Inr r \<and>
         fst ` set stability = set (map parent (filter (\<lambda>e. child_size e > 1) raw_tree)) \<union>
                              set (map child (filter (\<lambda>e. child_size e > 1) raw_tree)) \<and>
         (\<forall>k \<in> fst ` set stability. r \<le> k)"
  show "node_list_of stability = spec_nodes (filter (\<lambda>e. child_size e > 1) raw_tree)"
    by (rule node_list_of_spec_nodes[OF keys]) (use h in blast)+
next
  from select_clusters_refines[OF acyc keys kids]
  show "\<exists>res. select_clusters raw_tree stability = Some (Inr res) \<and> distinct res \<and>
       set res = spec_select_clusters (filter (\<lambda>e. child_size e > 1) raw_tree)
                   (node_list_of stability) (\<lambda>k. the (map_of stability k))" .
next
  fix s :: real
  show "select_clusters
      [\<lparr>parent = 5, child = 6, lambda_val = 1, child_size = 3\<rparr>,
       \<lparr>parent = 5, child = 7, lambda_val = 3 / 2, child_size = 2\<rparr>]
      [(5, s), (6, 6 / 5), (7, 1 / 2)] = Some (Inr [7, 6])"
    by (simp add: select_clusters_def node_list_of_def lookup_def bfs_from_cluster_tree_def
        bfs_loop.simps children_of_def)
qed

theorem select_clusters_rule_witness:
  "node_list_of [(5, 0), (6, 1), (7, 1 / 2), (8, 1), (9, 1)] = [9, 8, 7, 6] \<and>
   spec_nodes (filter (\<lambda>e. child_size e > 1)
     [\<lparr>parent = 5, child = 6, lambda_val = 1, child_size = 4\<rparr>,
      \<lparr>parent = 5, child = 7, lambda_val = 1, child_size = 2\<rparr>,
      \<lparr>parent = 6, child = 8, lambda_val = 2, child_size = 2\<rparr>,
      \<lparr>parent = 6, child = 9, lambda_val = 2, child_size = 2\<rparr>]) = [9, 8, 7, 6] \<and>
   select_clusters
     [\<lparr>parent = 5, child = 6, lambda_val = 1, child_size = 4\<rparr>,
      \<lparr>parent = 5, child = 7, lambda_val = 1, child_size = 2\<rparr>,
      \<lparr>parent = 6, child = 8, lambda_val = 2, child_size = 2\<rparr>,
      \<lparr>parent = 6, child = 9, lambda_val = 2, child_size = 2\<rparr>]
     [(5, 0), (6, 1), (7, 1 / 2), (8, 1), (9, 1)] = Some (Inr [9, 8, 7]) \<and>
   spec_select_clusters (filter (\<lambda>e. child_size e > 1)
     [\<lparr>parent = 5, child = 6, lambda_val = 1, child_size = 4\<rparr>,
      \<lparr>parent = 5, child = 7, lambda_val = 1, child_size = 2\<rparr>,
      \<lparr>parent = 6, child = 8, lambda_val = 2, child_size = 2\<rparr>,
      \<lparr>parent = 6, child = 9, lambda_val = 2, child_size = 2\<rparr>])
     [9, 8, 7, 6] (\<lambda>k. the (map_of [(5, 0), (6, 1), (7, 1 / 2), (8, 1), (9, 1)] k)) = {7, 8, 9}"
proof -
  let ?T = "[\<lparr>parent = 5, child = 6, lambda_val = 1, child_size = 4\<rparr>,
      \<lparr>parent = 5, child = 7, lambda_val = 1, child_size = 2\<rparr>,
      \<lparr>parent = 6, child = 8, lambda_val = 2, child_size = 2\<rparr>,
      \<lparr>parent = 6, child = 9, lambda_val = 2, child_size = 2\<rparr>]"
  let ?S = "[(5, 0), (6, 1), (7, 1 / 2), (8, 1), (9, 1)] :: (int \<times> real) list"
  have a: "acyclic (tree_edges (filter (\<lambda>e. child_size e > 1) ?T))"
    by (rule acyclicI_order[where f = "\<lambda>x. - x"]) (auto simp: tree_edges_def)
  have d: "distinct (map fst ?S)" by simp
  have k: "\<forall>e \<in> set ?T. child_size e > 1 \<longrightarrow> child e \<in> fst ` set ?S" by simp
  have n: "node_list_of ?S = [9, 8, 7, 6]" by (simp add: node_list_of_def)
  have m: "array_min (map parent (filter (\<lambda>e. child_size e > 1) ?T)) = Inr 5 \<and>
         fst ` set ?S = set (map parent (filter (\<lambda>e. child_size e > 1) ?T)) \<union>
                              set (map child (filter (\<lambda>e. child_size e > 1) ?T)) \<and>
         (\<forall>k \<in> fst ` set ?S. 5 \<le> k)" by auto
  have v: "select_clusters ?T ?S = Some (Inr [9, 8, 7])"
    by (simp add: select_clusters_def node_list_of_def lookup_def bfs_from_cluster_tree_def
        bfs_loop.simps children_of_def)
  note inst = select_clusters_rule[OF a d k]
  from inst m have sn: "node_list_of ?S = spec_nodes (filter (\<lambda>e. child_size e > 1) ?T)" by blast
  from inst obtain res where "select_clusters ?T ?S = Some (Inr res)"
    "set res = spec_select_clusters (filter (\<lambda>e. child_size e > 1) ?T)
                   (node_list_of ?S) (\<lambda>k. the (map_of ?S k))" by blast
  with v have "spec_select_clusters (filter (\<lambda>e. child_size e > 1) ?T)
                   (node_list_of ?S) (\<lambda>k. the (map_of ?S k)) = set [9, 8, 7]" by simp
  then have sp: "spec_select_clusters (filter (\<lambda>e. child_size e > 1) ?T)
                   [9, 8, 7, 6] (\<lambda>k. the (map_of ?S k)) = {7, 8, 9}"
    unfolding n by auto
  from n sn v sp show ?thesis by (simp only: simp_thms)
qed

text \<open>
  With the dictionary of the two stabilities 1.2 of node 6 and 0.5 of node 7 alone, with no
  entry for the root 5, the smallest key 6 is dropped in place of the root and the result
  is node 7 alone.
\<close>

theorem select_clusters_example_counterexample:
  "select_clusters
      [\<lparr>parent = 5, child = 6, lambda_val = 1, child_size = 3\<rparr>,
       \<lparr>parent = 5, child = 7, lambda_val = 3 / 2, child_size = 2\<rparr>]
      [(6, 6 / 5), (7, 1 / 2)] = Some (Inr [7])"
  by (simp add: select_clusters_def node_list_of_def lookup_def bfs_from_cluster_tree_def
        bfs_loop.simps children_of_def)

section \<open>The leaves of the cluster tree\<close>

lemma forest_ancestors_linear:
  assumes uniq: "\<forall>p p' v. (p, v) \<in> E \<and> (p', v) \<in> E \<longrightarrow> p = p'"
    and b: "(b, l) \<in> E\<^sup>*"
  shows "(a, l) \<in> E\<^sup>* \<longrightarrow> (a, b) \<in> E\<^sup>* \<or> (b, a) \<in> E\<^sup>*"
  using b
proof (induction rule: rtrancl_induct)
  case base
  then show ?case by simp
next
  case (step y z)
  show ?case
  proof
    assume az: "(a, z) \<in> E\<^sup>*"
    show "(a, b) \<in> E\<^sup>* \<or> (b, a) \<in> E\<^sup>*"
    proof (cases "a = z")
      case True
      with step(1,2) have "(b, a) \<in> E\<^sup>*" by (auto intro: rtrancl_into_rtrancl)
      then show ?thesis ..
    next
      case False
      with az have "(a, z) \<in> E\<^sup>+" by (simp add: rtrancl_eq_or_trancl)
      then obtain y' where y': "(a, y') \<in> E\<^sup>*" "(y', z) \<in> E"
        by (auto elim: tranclE dest: trancl_into_rtrancl)
      from uniq y'(2) step(2) have "y' = y" by blast
      with y'(1) have "(a, y) \<in> E\<^sup>*" by simp
      with step.IH show ?thesis by blast
    qed
  qed
qed

lemma forest_siblings_disjoint:
  assumes uniq: "\<forall>p p' v. (p, v) \<in> E \<and> (p', v) \<in> E \<longrightarrow> p = p'"
    and acyc: "acyclic E"
    and c: "(v, c) \<in> E" and c': "(v, c') \<in> E" and ne: "c \<noteq> c'"
    and l: "(c, l) \<in> E\<^sup>*" and l': "(c', l) \<in> E\<^sup>*"
  shows False
proof -
  have no: "\<not> (x, y) \<in> E\<^sup>*" if x: "(v, x) \<in> E" and y: "(v, y) \<in> E" and xy: "x \<noteq> y" for x y
  proof
    assume "(x, y) \<in> E\<^sup>*"
    with xy have "(x, y) \<in> E\<^sup>+" by (simp add: rtrancl_eq_or_trancl)
    then obtain p where p: "(x, p) \<in> E\<^sup>*" "(p, y) \<in> E"
      by (auto elim: tranclE dest: trancl_into_rtrancl)
    from uniq p(2) y have "p = v" by blast
    with p(1) have "(x, v) \<in> E\<^sup>*" by simp
    with x have "(v, v) \<in> E\<^sup>+" by (rule rtrancl_into_trancl2)
    with acyc show False by (simp add: acyclic_def)
  qed
  from forest_ancestors_linear[where E = E and a = c and b = c' and l = l, OF uniq l'] l
  have "(c, c') \<in> E\<^sup>* \<or> (c', c) \<in> E\<^sup>*" by blast
  with no[OF c c' ne] no[OF c' c] ne show False by blast
qed

lemma distinct_concat_map:
  "distinct cs \<Longrightarrow> \<forall>c \<in> set cs. distinct (g c) \<Longrightarrow>
   \<forall>c \<in> set cs. \<forall>c' \<in> set cs. c \<noteq> c' \<longrightarrow> set (g c) \<inter> set (g c') = {} \<Longrightarrow>
   distinct (concat (map g cs))"
proof (induction cs)
  case Nil
  then show ?case by simp
next
  case (Cons c cs)
  from Cons.prems have "distinct (concat (map g cs))" by (intro Cons.IH) auto
  moreover from Cons.prems have "distinct (g c)" by simp
  moreover have "set (g c) \<inter> set (concat (map g cs)) = {}"
  proof -
    have "set (g c) \<inter> set (g c') = {}" if "c' \<in> set cs" for c'
    proof -
      from that Cons.prems(1) have "c \<noteq> c'" by auto
      with Cons.prems(3) that show ?thesis by simp
    qed
    then show ?thesis by auto
  qed
  ultimately show ?case by simp
qed

lemma collect_all_Inr:
  "\<forall>c \<in> set cs. F c = Inr (g c) \<Longrightarrow> collect (map F cs) = Inr (map g cs)"
  by (induction cs) auto

lemma tree_edges_children:
  "(v, c) \<in> tree_edges ct \<longleftrightarrow> c \<in> set (map child (filter (\<lambda>e. parent e = v) ct))"
  by (auto simp: tree_edges_def)

lemma recurse_leaf_dfs_forest:
  assumes dist: "distinct (map child ct)" and acyc: "acyclic (tree_edges ct)"
  shows "\<exists>d0. \<forall>d \<ge> d0. \<exists>ls. recurse_leaf_dfs d ct v = Inr ls \<and> distinct ls \<and>
    set ls = {l. (v, l) \<in> (tree_edges ct)\<^sup>* \<and> l \<notin> set (map parent ct)}"
proof -
  let ?E = "tree_edges ct"
  let ?L = "\<lambda>x. {l. (x, l) \<in> ?E\<^sup>* \<and> l \<notin> set (map parent ct)}"
  have wfE: "wf (?E\<inverse>)" using finite_tree_edges acyc by (rule finite_acyclic_wf_converse)
  have uniq: "\<forall>p p' v. (p, v) \<in> ?E \<and> (p', v) \<in> ?E \<longrightarrow> p = p'"
    using tree_edges_unique_parent[OF dist] by blast
  show ?thesis
  proof (induction v rule: wf_induct_rule[OF wfE])
    case (1 v)
    let ?cs = "map child (filter (\<lambda>e. parent e = v) ct)"
    show ?case
    proof (cases "?cs = []")
      case True
      then have vnp: "v \<notin> set (map parent ct)" by (auto simp: filter_empty_conv)
      have Lv: "?L v = {v}"
      proof -
        have "l = v" if "(v, l) \<in> ?E\<^sup>*" for l
        proof (rule ccontr)
          assume "l \<noteq> v"
          with that have "(v, l) \<in> ?E\<^sup>+" by (simp add: rtrancl_eq_or_trancl)
          then obtain c where "(v, c) \<in> ?E" by (auto dest: tranclD)
          with True show False by (simp add: tree_edges_children)
        qed
        with vnp show ?thesis by auto
      qed
      have "\<exists>ls. recurse_leaf_dfs d ct v = Inr ls \<and> distinct ls \<and> set ls = ?L v" if "d \<ge> Suc 0" for d
      proof -
        from that obtain d' where "d = Suc d'" by (cases d) auto
        with True Lv show ?thesis by simp
      qed
      then show ?thesis by blast
    next
      case False
      have IH: "\<forall>c \<in> set ?cs. \<exists>d0. \<forall>d \<ge> d0. \<exists>ls. recurse_leaf_dfs d ct c = Inr ls \<and> distinct ls \<and>
          set ls = ?L c"
      proof
        fix c assume "c \<in> set ?cs"
        then have "(c, v) \<in> ?E\<inverse>" by (simp add: tree_edges_children)
        then show "\<exists>d0. \<forall>d \<ge> d0. \<exists>ls. recurse_leaf_dfs d ct c = Inr ls \<and> distinct ls \<and> set ls = ?L c"
          by (rule 1)
      qed
      from bchoice[OF IH] obtain f where
        f: "\<forall>c \<in> set ?cs. \<forall>d \<ge> f c. \<exists>ls. recurse_leaf_dfs d ct c = Inr ls \<and> distinct ls \<and> set ls = ?L c"
        by blast
      define d0 where "d0 = Suc (Max (f ` set ?cs))"
      have "\<exists>ls. recurse_leaf_dfs d ct v = Inr ls \<and> distinct ls \<and> set ls = ?L v" if "d \<ge> d0" for d
      proof -
        from that obtain d' where d: "d = Suc d'" and d': "d' \<ge> Max (f ` set ?cs)"
          by (cases d) (auto simp: d0_def)
        have big: "f c \<le> d'" if "c \<in> set ?cs" for c
        proof -
          from that have "f c \<le> Max (f ` set ?cs)" by (intro Max_ge) auto
          with d' show ?thesis by simp
        qed
        define g where "g c = projr (recurse_leaf_dfs d' ct c)" for c
        have gc: "recurse_leaf_dfs d' ct c = Inr (g c) \<and> distinct (g c) \<and> set (g c) = ?L c"
          if "c \<in> set ?cs" for c
        proof -
          from f that big[OF that] obtain ls where
            "recurse_leaf_dfs d' ct c = Inr ls \<and> distinct ls \<and> set ls = ?L c" by blast
          then show ?thesis by (simp add: g_def)
        qed
        then have "\<forall>c \<in> set ?cs. recurse_leaf_dfs d' ct c = Inr (g c)" by blast
        then have "collect (map (recurse_leaf_dfs d' ct) ?cs) = Inr (map g ?cs)"
          by (rule collect_all_Inr)
        with False have res: "recurse_leaf_dfs d ct v = Inr (concat (map g ?cs))"
          by (simp add: d del: map_map)
        have dcs: "distinct ?cs" using dist by (simp add: distinct_map_filter)
        have disj: "\<forall>c \<in> set ?cs. \<forall>c' \<in> set ?cs. c \<noteq> c' \<longrightarrow> set (g c) \<inter> set (g c') = {}"
        proof (intro ballI impI)
          fix c c' assume c: "c \<in> set ?cs" and c': "c' \<in> set ?cs" and ne: "c \<noteq> c'"
          show "set (g c) \<inter> set (g c') = {}"
          proof (rule ccontr)
            assume "set (g c) \<inter> set (g c') \<noteq> {}"
            then obtain l where "l \<in> set (g c)" "l \<in> set (g c')" by blast
            with gc[OF c] gc[OF c'] have l: "(c, l) \<in> ?E\<^sup>*" "(c', l) \<in> ?E\<^sup>*" by simp_all
            from c c' have "(v, c) \<in> ?E" "(v, c') \<in> ?E" by (simp_all only: tree_edges_children)
            from forest_siblings_disjoint[OF uniq acyc this ne l] show False .
          qed
        qed
        from gc have "\<forall>c \<in> set ?cs. distinct (g c)" by blast
        with dcs disj have dres: "distinct (concat (map g ?cs))" by (intro distinct_concat_map)
        have vp: "v \<in> set (map parent ct)"
          using False by (auto simp: filter_empty_conv)
        have sres: "set (concat (map g ?cs)) = ?L v"
        proof (intro equalityI subsetI)
          fix l assume "l \<in> set (concat (map g ?cs))"
          then obtain c where c: "c \<in> set ?cs" "l \<in> set (g c)" by auto
          with gc[OF c(1)] have l: "(c, l) \<in> ?E\<^sup>*" "l \<notin> set (map parent ct)" by simp_all
          from c(1) have "(v, c) \<in> ?E" by (simp only: tree_edges_children)
          with l(1) have "(v, l) \<in> ?E\<^sup>*" by (auto intro: converse_rtrancl_into_rtrancl)
          with l(2) show "l \<in> ?L v" by simp
        next
          fix l assume "l \<in> ?L v"
          then have l: "(v, l) \<in> ?E\<^sup>*" "l \<notin> set (map parent ct)" by simp_all
          with vp have "l \<noteq> v" by auto
          with l(1) have "(v, l) \<in> ?E\<^sup>+" by (simp add: rtrancl_eq_or_trancl)
          then obtain c where c: "(v, c) \<in> ?E" "(c, l) \<in> ?E\<^sup>*" by (auto dest: tranclD)
          from c(1) have cin: "c \<in> set ?cs" by (simp only: tree_edges_children)
          with gc[OF cin] c(2) l(2) have "l \<in> set (g c)" by simp
          with cin show "l \<in> set (concat (map g ?cs))" by auto
        qed
        from res dres sres show ?thesis by blast
      qed
      then show ?thesis by blast
    qed
  qed
qed

text \<open>
  Claim C6. Let the condensed tree have a row with \<open>child_size > 1\<close>, and let its cluster
  tree be a forest (no node is the child of two rows, no cycle) in which every parent other
  than the smallest parent id is a child. Then \<open>_get_leaves\<close> is the leaf search from the
  smallest parent id of the cluster tree, and for every recursion limit that is large
  enough it returns a list without repetition whose elements are exactly the nodes of the
  cluster tree that have no children in the cluster tree. The order of the list is a
  function of the tree: \<open>_get_leaves\<close> is a function of its argument.
\<close>

theorem get_leaves_complete:
  assumes ne: "filter (\<lambda>e. child_size e > 1) tree \<noteq> []"
    and dist: "distinct (map child (filter (\<lambda>e. child_size e > 1) tree))"
    and acyc: "acyclic (tree_edges (filter (\<lambda>e. child_size e > 1) tree))"
    and root: "\<forall>e \<in> set (filter (\<lambda>e. child_size e > 1) tree).
      array_min (map parent (filter (\<lambda>e. child_size e > 1) tree)) \<noteq> Inr (parent e) \<longrightarrow>
      parent e \<in> set (map child (filter (\<lambda>e. child_size e > 1) tree))"
  shows "\<exists>r. array_min (map parent (filter (\<lambda>e. child_size e > 1) tree)) = Inr r \<and>
    (\<forall>limit. get_leaves limit tree = recurse_leaf_dfs limit (filter (\<lambda>e. child_size e > 1) tree) r) \<and>
    (\<exists>limit0. \<forall>limit \<ge> limit0. \<exists>ls. get_leaves limit tree = Inr ls \<and> distinct ls \<and>
       set ls = {v \<in> set (map parent (filter (\<lambda>e. child_size e > 1) tree)) \<union>
                      set (map child (filter (\<lambda>e. child_size e > 1) tree)).
                 filter (\<lambda>e. parent e = v) (filter (\<lambda>e. child_size e > 1) tree) = []})"
proof -
  define ct where "ct = filter (\<lambda>e. child_size e > 1) tree"
  from ne obtain r where r: "array_min (map parent ct) = Inr r"
    unfolding ct_def[symmetric] by (cases "map parent ct") auto
  have gl: "get_leaves limit tree = recurse_leaf_dfs limit ct r" for limit
    using r by (simp add: get_leaves_def ct_def[symmetric])
  from array_min_in[OF r] have rin: "r \<in> set (map parent ct)" .
  from root r have only: "\<forall>e \<in> set ct. parent e \<noteq> r \<longrightarrow> parent e \<in> set (map child ct)"
    unfolding ct_def[symmetric] by auto
  from acyc have acyc': "acyclic (tree_edges ct)" by (simp add: ct_def)
  from dist have dist': "distinct (map child ct)" by (simp add: ct_def)
  from root_reaches_all[OF acyc' rin only]
  have reach: "(tree_edges ct)\<^sup>* `` {r} = set (map parent ct) \<union> set (map child ct)" .
  have leaves: "{l. (r, l) \<in> (tree_edges ct)\<^sup>* \<and> l \<notin> set (map parent ct)} =
      {v \<in> set (map parent ct) \<union> set (map child ct). filter (\<lambda>e. parent e = v) ct = []}"
  proof -
    have "(l \<notin> set (map parent ct)) = (filter (\<lambda>e. parent e = l) ct = [])" for l
      by (auto simp: filter_empty_conv)
    moreover have "((r, l) \<in> (tree_edges ct)\<^sup>*) = (l \<in> set (map parent ct) \<union> set (map child ct))" for l
      using reach by blast
    ultimately show ?thesis by simp
  qed
  from recurse_leaf_dfs_forest[OF dist' acyc', of r] obtain limit0 where
    "\<forall>limit \<ge> limit0. \<exists>ls. recurse_leaf_dfs limit ct r = Inr ls \<and> distinct ls \<and>
      set ls = {l. (r, l) \<in> (tree_edges ct)\<^sup>* \<and> l \<notin> set (map parent ct)}"
    by blast
  then have "\<forall>limit \<ge> limit0. \<exists>ls. get_leaves limit tree = Inr ls \<and> distinct ls \<and>
      set ls = {v \<in> set (map parent ct) \<union> set (map child ct). filter (\<lambda>e. parent e = v) ct = []}"
    by (simp only: gl leaves)
  then have "\<exists>limit0. \<forall>limit \<ge> limit0. \<exists>ls. get_leaves limit tree = Inr ls \<and> distinct ls \<and>
      set ls = {v \<in> set (map parent ct) \<union> set (map child ct). filter (\<lambda>e. parent e = v) ct = []}"
    by (rule exI)
  with r gl show ?thesis unfolding ct_def by blast
qed

text \<open>
  The root 5 with the clusters 6 and 7, the clusters 8 and 9 under 6, and a point under 7:
  the leaves are 8, 9 and 7, in this order.
\<close>

theorem get_leaves_complete_witness:
  "get_leaves 100
     [\<lparr>parent = 5, child = 6, lambda_val = 1, child_size = 4\<rparr>,
      \<lparr>parent = 5, child = 7, lambda_val = 1, child_size = 2\<rparr>,
      \<lparr>parent = 6, child = 8, lambda_val = 2, child_size = 2\<rparr>,
      \<lparr>parent = 6, child = 9, lambda_val = 2, child_size = 2\<rparr>,
      \<lparr>parent = 7, child = 0, lambda_val = 3, child_size = 1\<rparr>] = Inr [8, 9, 7] \<and>
   (\<exists>limit0. \<forall>limit \<ge> limit0. \<exists>ls. get_leaves limit
     [\<lparr>parent = 5, child = 6, lambda_val = 1, child_size = 4\<rparr>,
      \<lparr>parent = 5, child = 7, lambda_val = 1, child_size = 2\<rparr>,
      \<lparr>parent = 6, child = 8, lambda_val = 2, child_size = 2\<rparr>,
      \<lparr>parent = 6, child = 9, lambda_val = 2, child_size = 2\<rparr>,
      \<lparr>parent = 7, child = 0, lambda_val = 3, child_size = 1\<rparr>] = Inr ls \<and> distinct ls \<and>
      set ls = {7, 8, 9})"
proof -
  let ?T = "[\<lparr>parent = 5, child = 6, lambda_val = 1, child_size = 4\<rparr>,
      \<lparr>parent = 5, child = 7, lambda_val = 1, child_size = 2\<rparr>,
      \<lparr>parent = 6, child = 8, lambda_val = 2, child_size = 2\<rparr>,
      \<lparr>parent = 6, child = 9, lambda_val = 2, child_size = 2\<rparr>,
      \<lparr>parent = 7, child = 0, lambda_val = 3, child_size = 1\<rparr>]"
  let ?C = "[\<lparr>parent = 5, child = 6, lambda_val = 1, child_size = 4\<rparr>,
      \<lparr>parent = 5, child = 7, lambda_val = 1, child_size = 2\<rparr>,
      \<lparr>parent = 6, child = 8, lambda_val = 2, child_size = 2\<rparr>,
      \<lparr>parent = 6, child = 9, lambda_val = 2, child_size = 2\<rparr>]"
  have ct: "filter (\<lambda>e. child_size e > 1) ?T = ?C" by simp
  have ne: "filter (\<lambda>e. child_size e > 1) ?T \<noteq> []" by simp
  have d: "distinct (map child (filter (\<lambda>e. child_size e > 1) ?T))" by simp
  have a: "acyclic (tree_edges (filter (\<lambda>e. child_size e > 1) ?T))"
    unfolding ct by (rule acyclicI_order[where f = "\<lambda>x. - x"]) (auto simp: tree_edges_def)
  have r: "\<forall>e \<in> set (filter (\<lambda>e. child_size e > 1) ?T).
      array_min (map parent (filter (\<lambda>e. child_size e > 1) ?T)) \<noteq> Inr (parent e) \<longrightarrow>
      parent e \<in> set (map child (filter (\<lambda>e. child_size e > 1) ?T))" by simp
  have s: "{v \<in> set (map parent ?C) \<union> set (map child ?C). filter (\<lambda>e. parent e = v) ?C = []} = {7, 8, 9}"
    by auto
  have v: "get_leaves 100 ?T = Inr [8, 9, 7]"
    by (simp add: get_leaves_def recurse_leaf_dfs_numeral)
  from get_leaves_complete[OF ne d a r] v show ?thesis
    unfolding ct s by blast
qed

end
